theory Spec2Isabelle
  imports Complex_Main "HOL-Library.Multiset"
begin

section \<open>Strings and the library functions the selector uses\<close>

text \<open>
  A Go string is modelled as the list of its Unicode code points (runes), which is what
  \<^verbatim>\<open>strings.Fields\<close> and \<^verbatim>\<open>for i, char := range road\<close> iterate over.
  Equality of two valid UTF-8 strings is equality of their rune lists.
\<close>

type_synonym rune = nat
type_synonym gostring = "rune list"

definition lit :: "string \<Rightarrow> gostring" where
  "lit s = map of_char s"

text \<open>\<^verbatim>\<open>unicode.IsSpace\<close>: the Unicode White_Space property.\<close>

definition isSpace :: "rune \<Rightarrow> bool" where
  "isSpace r \<longleftrightarrow>
     (9 \<le> r \<and> r \<le> 13) \<or> r = 32 \<or> r = 133 \<or> r = 160 \<or> r = 5760 \<or>
     (8192 \<le> r \<and> r \<le> 8202) \<or> r = 8232 \<or> r = 8233 \<or> r = 8239 \<or> r = 8287 \<or>
     r = 12288"

text \<open>
  \<^verbatim>\<open>strings.Fields\<close>: the maximal runs of non-space runes, in order; the empty list
  when the string holds white space only.
\<close>

function Fields :: "gostring \<Rightarrow> gostring list" where
  "Fields s =
     (case dropWhile isSpace s of
        [] \<Rightarrow> []
      | c # cs \<Rightarrow>
          takeWhile (\<lambda>r. \<not> isSpace r) (c # cs) #
          Fields (dropWhile (\<lambda>r. \<not> isSpace r) (c # cs)))"
  by pat_completeness auto
termination
proof (relation "measure length")
  show "wf (measure length)" by simp
next
  fix s :: gostring and c cs
  assume a: "dropWhile isSpace s = c # cs"
  have "\<not> isSpace c" using a by (metis hd_dropWhile list.sel(1) list.distinct(1))
  then have "length (dropWhile (\<lambda>r. \<not> isSpace r) (c # cs)) \<le> length cs"
    by (simp add: length_dropWhile_le)
  also have "length cs < length (dropWhile isSpace s)" using a by simp
  also have "\<dots> \<le> length s" by (rule length_dropWhile_le)
  finally show "(dropWhile (\<lambda>r. \<not> isSpace r) (c # cs), s) \<in> measure length" by simp
qed

declare Fields.simps [simp del]

text \<open>
  Go's conversion \<^verbatim>\<open>int(f)\<close> of a float discards the fraction (truncation toward
  zero). Distances are taken as real numbers, and Go's \<^verbatim>\<open>int\<close> as the integers.
\<close>

definition go_int :: "real \<Rightarrow> int" where
  "go_int r = (if 0 \<le> r then \<lfloor>r\<rfloor> else \<lceil>r\<rceil>)"

section \<open>The selector (VegreferanseSelector)\<close>

text \<open>
  The anonymous struct types of \<^verbatim>\<open>VegreferanseMatch\<close> and
  \<^verbatim>\<open>V4PositionResponseItem\<close>. The field \<^verbatim>\<open>Strekning.Strekning\<close> is written
  with its JSON name, \<open>strekning\<close>.
\<close>

record VegsystemT =
  Vegkategori :: gostring
  Fase :: gostring
  Nummer :: int

record StrekningT =
  strekning :: int
  Delstrekning :: int
  Arm :: bool
  Adskilte_lop :: gostring
  Trafikantgruppe :: gostring
  Retning :: gostring
  Meter :: real

record VegsystemreferanseT =
  Vegsystem :: VegsystemT
  Strekning :: StrekningT
  Kortform :: gostring

record VegreferanseMatch =
  Vegsystemreferanse :: VegsystemreferanseT
  Avstand :: real

text \<open>The label of a match: \<^verbatim>\<open>match.Vegsystemreferanse.Kortform\<close>.\<close>

abbreviation label :: "VegreferanseMatch \<Rightarrow> gostring" where
  "label match \<equiv> Kortform (Vegsystemreferanse match)"

record VegreferanseSelector =
  history :: "gostring list"
  maxHistory :: int

text \<open>
  \<^verbatim>\<open>NewVegreferanseSelector\<close>: \<^verbatim>\<open>make([]string, 0, maxHistory)\<close> panics on a
  negative capacity.
\<close>

definition NewVegreferanseSelector :: "int \<Rightarrow> VegreferanseSelector option" where
  "NewVegreferanseSelector n =
     (if n < 0 then None else Some \<lparr>history = [], maxHistory = n\<rparr>)"

definition AddToHistory :: "VegreferanseSelector \<Rightarrow> gostring \<Rightarrow> VegreferanseSelector" where
  "AddToHistory s vegreferanse =
     (if vegreferanse = [] then s
      else
        let h = history s @ [vegreferanse]
        in if int (length h) > maxHistory s then s\<lparr>history := tl h\<rparr>
           else s\<lparr>history := h\<rparr>)"

definition isDigit :: "rune \<Rightarrow> bool" where
  "isDigit char \<longleftrightarrow> 48 \<le> char \<and> char \<le> 57"

definition extractCategory :: "gostring \<Rightarrow> gostring" where
  "extractCategory road = takeWhile (\<lambda>char. \<not> isDigit char) road"

definition calculateMatchScore :: "gostring \<Rightarrow> gostring \<Rightarrow> real \<Rightarrow> int" where
  "calculateMatchScore previous current distance =
     (let prevParts = Fields previous; currParts = Fields current
      in if length prevParts < 1 \<or> length currParts < 1 then 0
         else
           let prevRoad = prevParts ! 0; currRoad = currParts ! 0;
               score1 =
                 (if prevRoad = currRoad then 1000
                  else if extractCategory prevRoad = extractCategory currRoad then 100
                  else 0);
               score2 =
                 (if length prevParts > 1 \<and> length currParts > 1 \<and>
                     prevParts ! 1 = currParts ! 1
                  then score1 + 50 else score1);
               distanceAdjustment = go_int (distance * 10)
           in score2 - distanceAdjustment)"

text \<open>
  The scan of \<^verbatim>\<open>SelectBestMatch\<close>: one step per candidate, in list order, on the
  four loop variables. The closest-match variables feed the diagnostic message only.
\<close>

record scan_state =
  bestMatch :: int
  bestScore :: int
  closestMatchDistance :: real
  closestMatchIndex :: int

definition scan_step :: "gostring \<Rightarrow> scan_state \<Rightarrow> nat \<times> VegreferanseMatch \<Rightarrow> scan_state" where
  "scan_step lastVegreferanse st im =
     (let i = fst im; match = snd im;
          score = calculateMatchScore lastVegreferanse (label match) (Avstand match);
          st1 = (if score > bestScore st then st\<lparr>bestScore := score, bestMatch := int i\<rparr>
                 else st)
      in if Avstand match < closestMatchDistance st1
         then st1\<lparr>closestMatchDistance := Avstand match, closestMatchIndex := int i\<rparr>
         else st1)"

definition scan :: "gostring \<Rightarrow> VegreferanseMatch list \<Rightarrow> scan_state" where
  "scan lastVegreferanse matches =
     foldl (scan_step lastVegreferanse)
       \<lparr>bestMatch = - 1, bestScore = - 1,
        closestMatchDistance = Avstand (matches ! 0), closestMatchIndex = 0\<rparr>
       (enumerate 0 matches)"

text \<open>
  \<^verbatim>\<open>SelectBestMatch\<close> reads the history and does not change it. The text it prints
  when the chosen candidate is markedly farther than the closest one is not part of the
  result and is left out.
\<close>

definition SelectBestMatch :: "VegreferanseSelector \<Rightarrow> VegreferanseMatch list \<Rightarrow> gostring" where
  "SelectBestMatch s matches =
     (if length matches = 0 then []
      else if length matches = 1 \<or> length (history s) = 0 then label (matches ! 0)
      else
        let lastVegreferanse = history s ! (length (history s) - 1);
            st = scan lastVegreferanse matches
        in if bestMatch st \<ge> 0 then label (matches ! nat (bestMatch st))
           else label (matches ! 0))"

text \<open>
  \<^verbatim>\<open>processResult\<close>, and the errors a worker records for a line. The error of a
  failed lookup is kept as a value of the type \<open>'e\<close>.
\<close>

datatype 'e line_error =
    NotEnoughColumns
  | InvalidX
  | InvalidY
  | APIError 'e

record 'e processResult =
  lineIdx :: int
  line :: gostring
  vegreferanse :: gostring
  matches :: "VegreferanseMatch list"
  err :: "'e line_error option"

text \<open>
  The loop of \<^verbatim>\<open>applyVegreferanseSelector\<close>, with the selector it ends with: in
  list order, each result that has candidates gets the selected label, which is then
  added to the history.
\<close>

fun selector_pass ::
  "VegreferanseSelector \<Rightarrow> 'e processResult list \<Rightarrow>
     'e processResult list \<times> VegreferanseSelector" where
  "selector_pass selector [] = ([], selector)"
| "selector_pass selector (result # rest) =
     (if length (matches result) > 0 then
        let v = SelectBestMatch selector (matches result);
            (rest', final) = selector_pass (AddToHistory selector v) rest
        in (result\<lparr>vegreferanse := v\<rparr> # rest', final)
      else
        let (rest', final) = selector_pass selector rest
        in (result # rest', final))"

definition applyVegreferanseSelector ::
  "'e processResult list \<Rightarrow> 'e processResult list option" where
  "applyVegreferanseSelector results =
     (case NewVegreferanseSelector 10 of
        None \<Rightarrow> None
      | Some selector \<Rightarrow> Some (fst (selector_pass selector results)))"

text \<open>
  Any use of a selector is a sequence of its two operations; the labels returned by
  \<^verbatim>\<open>SelectBestMatch\<close> are collected beside the selector.
\<close>

datatype selector_op = OpAdd gostring | OpSelect "VegreferanseMatch list"

fun selector_step ::
  "VegreferanseSelector \<times> gostring list \<Rightarrow> selector_op \<Rightarrow>
     VegreferanseSelector \<times> gostring list" where
  "selector_step (s, out) (OpAdd v) = (AddToHistory s v, out)"
| "selector_step (s, out) (OpSelect ms) = (s, out @ [SelectBestMatch s ms])"

section \<open>The batch stage (processCoordinatesToVegreferanse)\<close>

record processTask =
  task_lineIdx :: int
  task_line :: gostring

text \<open>
  \<^verbatim>\<open>CoordToVegrefConfig\<close>. Both column indices are validated as non-negative
  (\<^verbatim>\<open>validate:"min=0"\<close>, and again against the header by \<^verbatim>\<open>readInputFile\<close>).
\<close>

record CoordToVegrefConfig =
  XColumn :: nat
  YColumn :: nat

text \<open>\<^verbatim>\<open>strings.Split\<close> at a one-rune separator: always at least one field.\<close>

fun Split :: "gostring \<Rightarrow> rune \<Rightarrow> gostring list" where
  "Split [] sep = [] # []"
| "Split (c # cs) sep =
     (if c = sep then [] # Split cs sep
      else (case Split cs sep of [] \<Rightarrow> [c] # [] | f # fs \<Rightarrow> (c # f) # fs))"

text \<open>
  The body of a worker's loop for one task. \<^verbatim>\<open>strconv.ParseFloat\<close> and the provider's
  \<^verbatim>\<open>GetVegreferanseMatches\<close> are parameters; coordinates are values of a type \<open>'c\<close>.
\<close>

definition process_task ::
  "CoordToVegrefConfig \<Rightarrow> (gostring \<Rightarrow> 'c option) \<Rightarrow>
     ('c \<Rightarrow> 'c \<Rightarrow> 'e + VegreferanseMatch list) \<Rightarrow> processTask \<Rightarrow> 'e processResult" where
  "process_task modeConfig ParseFloat GetVegreferanseMatches task =
     (let l = task_line task; idx = task_lineIdx task; fields = Split l 9
      in if length fields \<le> max (XColumn modeConfig) (YColumn modeConfig)
         then \<lparr>lineIdx = idx, line = l, vegreferanse = [], matches = [],
               err = Some NotEnoughColumns\<rparr>
         else
           case ParseFloat (fields ! XColumn modeConfig) of
             None \<Rightarrow> \<lparr>lineIdx = idx, line = l, vegreferanse = [], matches = [],
                       err = Some InvalidX\<rparr>
           | Some x \<Rightarrow>
               (case ParseFloat (fields ! YColumn modeConfig) of
                  None \<Rightarrow> \<lparr>lineIdx = idx, line = l, vegreferanse = [], matches = [],
                            err = Some InvalidY\<rparr>
                | Some y \<Rightarrow>
                    (case GetVegreferanseMatches x y of
                       Inl e \<Rightarrow> \<lparr>lineIdx = idx, line = l, vegreferanse = [], matches = [],
                                 err = Some (APIError e)\<rparr>
                     | Inr ms \<Rightarrow>
                         \<lparr>lineIdx = idx, line = l,
                          vegreferanse = (if length ms > 0 then label (ms ! 0) else []),
                          matches = ms, err = None\<rparr>)))"

text \<open>
  The goroutines of the batch stage, as interleaved atomic steps. The main goroutine
  queues the tasks one by one and then closes the task channel; each worker takes a task
  from the channel, works on it and sends the result, and leaves its loop once the
  channel is closed and empty. Both channels are buffered for all lines, so no send
  blocks. What a worker may send for a task is given by the relation \<open>work\<close>.
\<close>

datatype worker = Idle | Busy processTask | Exited

record 'e pool_state =
  unsent :: "processTask list"
  taskChannel :: "processTask list"
  closed :: bool
  workers :: "worker list"
  resultChannel :: "'e processResult list"

inductive pool_step ::
  "(processTask \<Rightarrow> 'e processResult \<Rightarrow> bool) \<Rightarrow> 'e pool_state \<Rightarrow> 'e pool_state \<Rightarrow> bool"
  for work where
  queue_task:
    "unsent s = t # ts \<Longrightarrow>
     pool_step work s (s\<lparr>unsent := ts, taskChannel := taskChannel s @ [t]\<rparr>)"
| close_tasks:
    "unsent s = [] \<Longrightarrow> \<not> closed s \<Longrightarrow> pool_step work s (s\<lparr>closed := True\<rparr>)"
| take_task:
    "w < length (workers s) \<Longrightarrow> workers s ! w = Idle \<Longrightarrow> taskChannel s = t # q \<Longrightarrow>
     pool_step work s (s\<lparr>taskChannel := q, workers := (workers s)[w := Busy t]\<rparr>)"
| send_result:
    "w < length (workers s) \<Longrightarrow> workers s ! w = Busy t \<Longrightarrow> work t r \<Longrightarrow>
     pool_step work s
       (s\<lparr>workers := (workers s)[w := Idle], resultChannel := resultChannel s @ [r]\<rparr>)"
| worker_exit:
    "w < length (workers s) \<Longrightarrow> workers s ! w = Idle \<Longrightarrow> closed s \<Longrightarrow>
     taskChannel s = [] \<Longrightarrow>
     pool_step work s (s\<lparr>workers := (workers s)[w := Exited]\<rparr>)"

definition tasks_of :: "gostring list \<Rightarrow> processTask list" where
  "tasks_of lines =
     map (\<lambda>il. \<lparr>task_lineIdx = int (fst il), task_line = snd il\<rparr>) (enumerate 0 lines)"

definition pool_init :: "gostring list \<Rightarrow> nat \<Rightarrow> 'e pool_state" where
  "pool_init lines n =
     \<lparr>unsent = tasks_of lines, taskChannel = [], closed = False,
      workers = replicate n Idle, resultChannel = []\<rparr>"

text \<open>\<^verbatim>\<open>wg.Wait()\<close> returns, after the close, once every worker has left its loop.\<close>

definition joined :: "'e pool_state \<Rightarrow> bool" where
  "joined s \<longleftrightarrow> closed s \<and> (\<forall>w\<in>set (workers s). w = Exited)"

text \<open>
  Collecting: \<^verbatim>\<open>results[result.lineIdx] = result\<close> for each result received, on a
  slice of zero values; an index outside the slice panics (\<open>None\<close>).
\<close>

definition zero_result :: "'e processResult" where
  "zero_result = \<lparr>lineIdx = 0, line = [], vegreferanse = [], matches = [], err = None\<rparr>"

fun collect :: "'e processResult list \<Rightarrow> 'e processResult list \<Rightarrow> 'e processResult list option" where
  "collect results [] = Some results"
| "collect results (r # rs) =
     (if 0 \<le> lineIdx r \<and> lineIdx r < int (length results)
      then collect (results[nat (lineIdx r) := r]) rs
      else None)"

text \<open>
  \<^verbatim>\<open>sort.Slice\<close> with the comparison on \<^verbatim>\<open>lineIdx\<close> is a parameter \<open>srt\<close>: it
  returns its input rearranged in non-decreasing order of \<^verbatim>\<open>lineIdx\<close>, and is not
  required to be stable.
\<close>

definition sorts_by_lineIdx :: "('e processResult list \<Rightarrow> 'e processResult list) \<Rightarrow> bool" where
  "sorts_by_lineIdx srt \<longleftrightarrow>
     (\<forall>xs. mset (srt xs) = mset xs \<and> sorted (map lineIdx (srt xs)))"

text \<open>
  \<^verbatim>\<open>processCoordinatesToVegreferanse\<close> returns \<open>out\<close> in some execution with \<open>n\<close>
  workers.
\<close>

definition processCoordinatesToVegreferanse ::
  "('e processResult list \<Rightarrow> 'e processResult list) \<Rightarrow>
   (processTask \<Rightarrow> 'e processResult \<Rightarrow> bool) \<Rightarrow> gostring list \<Rightarrow> nat \<Rightarrow>
   'e processResult list option \<Rightarrow> bool" where
  "processCoordinatesToVegreferanse srt work lines n out \<longleftrightarrow>
     (\<exists>s. (pool_step work)\<^sup>*\<^sup>* (pool_init lines n) s \<and> joined s \<and>
          out = map_option srt
                  (collect (replicate (length lines) zero_result) (resultChannel s)))"

text \<open>
  The worker relation of the source: the result of \<^verbatim>\<open>process_task\<close> with a provider
  that may answer as any function in \<open>P\<close>.
\<close>

definition worker_of ::
  "CoordToVegrefConfig \<Rightarrow> (gostring \<Rightarrow> 'c option) \<Rightarrow>
   ('c \<Rightarrow> 'c \<Rightarrow> 'e + VegreferanseMatch list) set \<Rightarrow> processTask \<Rightarrow> 'e processResult \<Rightarrow> bool" where
  "worker_of modeConfig ParseFloat P task r \<longleftrightarrow>
     (\<exists>p\<in>P. r = process_task modeConfig ParseFloat p task)"

text \<open>
  \<^verbatim>\<open>writeResults\<close>: the strings written, the header line first; a result with an
  error is reported and skipped. Failures of the file system are not modelled.
\<close>

definition writeResults :: "gostring \<Rightarrow> 'e processResult list \<Rightarrow> gostring list" where
  "writeResults header results =
     (header @ [10]) #
     map (\<lambda>result. line result @ [9] @ vegreferanse result @ [10])
       (filter (\<lambda>result. err result = None) results)"

text \<open>
  The coordinate branch of \<^verbatim>\<open>processFile\<close> after the batch stage: the selector
  pass, then the output.
\<close>

definition output_of :: "gostring \<Rightarrow> 'e processResult list \<Rightarrow> gostring list option" where
  "output_of header results =
     map_option (writeResults (header @ 9 # lit ''Vegreferanse''))
       (applyVegreferanseSelector results)"

section \<open>The scoring rule in the words of the specification\<close>




text \<open>The score of a candidate against a previous label.\<close>

definition match_score :: "gostring \<Rightarrow> VegreferanseMatch \<Rightarrow> int" where
  "match_score previous m = calculateMatchScore previous (label m) (Avstand m)"

section \<open>Example values\<close>

text \<open>
  A match as the repository's tests write it: label and distance set, every other
  field zero.
\<close>

definition mk_match :: "string \<Rightarrow> real \<Rightarrow> VegreferanseMatch" where
  "mk_match k d =
     \<lparr>Vegsystemreferanse =
        \<lparr>Vegsystem = \<lparr>Vegkategori = [], Fase = [], Nummer = 0\<rparr>,
         Strekning = \<lparr>strekning = 0, Delstrekning = 0, Arm = False, Adskilte_lop = [],
                      Trafikantgruppe = [], Retning = [], Meter = 0\<rparr>,
         Kortform = lit k\<rparr>,
      Avstand = d\<rparr>"

definition ex_selector :: VegreferanseSelector where
  "ex_selector = \<lparr>history = [lit ''E18 S65D1 m12500''], maxHistory = 5\<rparr>"

definition ex_matches :: "VegreferanseMatch list" where
  "ex_matches = [mk_match ''Kv1000 S1D1 m500'' 1, mk_match ''E18 S65D1 m12600'' 3]"


section \<open>Auxiliary notions for the selector\<close>

text \<open>
  After the scan either nothing beat the initial best score, or the best index is the
  first candidate of maximal score, which beat it.
\<close>

definition scan_kept :: "gostring \<Rightarrow> scan_state \<Rightarrow> VegreferanseMatch list \<Rightarrow> scan_state \<Rightarrow> bool" where
  "scan_kept l st ms r \<longleftrightarrow>
     bestScore r = bestScore st \<and> bestMatch r = bestMatch st \<and>
     (\<forall>j<length ms. match_score l (ms ! j) \<le> bestScore st)"

definition scan_found ::
  "gostring \<Rightarrow> scan_state \<Rightarrow> nat \<Rightarrow> VegreferanseMatch list \<Rightarrow> scan_state \<Rightarrow> nat \<Rightarrow> bool" where
  "scan_found l st k ms r i \<longleftrightarrow>
     i < length ms \<and> bestMatch r = int (k + i) \<and> bestScore r = match_score l (ms ! i) \<and>
     bestScore st < match_score l (ms ! i) \<and>
     (\<forall>j<i. match_score l (ms ! j) < match_score l (ms ! i)) \<and>
     (\<forall>j<length ms. match_score l (ms ! j) \<le> match_score l (ms ! i))"

section \<open>Auxiliary notions for the batch stage\<close>

text \<open>The tasks that workers hold, and what holds in every state of an execution.\<close>

fun held :: "worker \<Rightarrow> processTask multiset" where
  "held Idle = {#}"
| "held (Busy t) = {#t#}"
| "held Exited = {#}"

definition in_flight :: "worker list \<Rightarrow> processTask multiset" where
  "in_flight ws = sum_list (map held ws)"

definition pool_inv ::
  "(processTask \<Rightarrow> 'e processResult \<Rightarrow> bool) \<Rightarrow> processTask list \<Rightarrow> nat \<Rightarrow>
   'e pool_state \<Rightarrow> bool" where
  "pool_inv work tasks n s \<longleftrightarrow>
     length (workers s) = n \<and>
     (\<exists>done. list_all2 work done (resultChannel s) \<and>
        mset done + in_flight (workers s) + mset (taskChannel s) + mset (unsent s)
          = mset tasks) \<and>
     (closed s \<longrightarrow> unsent s = []) \<and>
     (Exited \<in> set (workers s) \<longrightarrow> closed s \<and> taskChannel s = [])"

section \<open>Example values for the batch stage\<close>

definition ex_config :: CoordToVegrefConfig where
  "ex_config = \<lparr>XColumn = 0, YColumn = 1\<rparr>"

definition ex_ParseFloat :: "gostring \<Rightarrow> real option" where
  "ex_ParseFloat s = (if s = lit ''1'' then Some 1 else if s = lit ''2'' then Some 2 else None)"

definition ex_provider :: "real \<Rightarrow> real \<Rightarrow> string + VegreferanseMatch list" where
  "ex_provider x y =
     (if x = 1 then Inr [mk_match ''E18 S65D1 m12621'' (5/2), mk_match ''Kv1000 S1D1 m500'' 1]
      else Inl ''status 500'')"

definition ex_lines :: "gostring list" where
  "ex_lines = [lit ''1'' @ [9] @ lit ''2'', lit ''x'', lit ''2'' @ [9] @ lit ''1'']"

section \<open>The disk cache (VegreferanseDiskCache)\<close>

text \<open>
  File paths and file contents are byte strings. The library functions the cache and the
  client call are parameters: \<^verbatim>\<open>fmt.Sprintf("%.6f", v)\<close> on a coordinate,
  \<^verbatim>\<open>json.Marshal\<close> of a match list, and \<^verbatim>\<open>json.Unmarshal\<close> into a match list, a
  position response and an error response.
\<close>

record GeometriT =
  Wkt :: gostring
  Srid :: int

record VeglenkesekvensT =
  Veglenkesekvensid :: int
  RelativPosisjon :: real
  lenke_Kortform :: gostring

record V4PositionResponseItem =
  item_Vegsystemreferanse :: VegsystemreferanseT
  Veglenkesekvens :: VeglenkesekvensT
  Geometri :: GeometriT
  Kommune :: int
  item_Avstand :: real

record V4Message =
  Message :: string
  Code :: int
  HelpURL :: string

record V4ErrorResponse =
  Messages :: "V4Message list"
  Type :: string
  Title :: string
  Status :: int
  Detail :: string

record 'c golib =
  fmt6 :: "'c \<Rightarrow> string"
  marshal :: "VegreferanseMatch list \<Rightarrow> string option"
  unmarshalMatches :: "string \<Rightarrow> VegreferanseMatch list option"
  unmarshalPosition :: "string \<Rightarrow> V4PositionResponseItem list option"
  unmarshalError :: "string \<Rightarrow> V4ErrorResponse option"

text \<open>
  The files of the cache: a path has no file, a file that cannot be read, or a file with
  its bytes.
\<close>

datatype cache_file = Unreadable | Content string

type_synonym disk = "string \<rightharpoonup> cache_file"

text \<open>
  \<^verbatim>\<open>getCacheFilePath\<close>. The slice \<^verbatim>\<open>safeKey[:4]\<close> panics (\<open>None\<close>) on a key of
  fewer than four bytes. Creating the subdirectory is not modelled.
\<close>

definition getCacheFilePath :: "'c golib \<Rightarrow> string \<Rightarrow> 'c \<Rightarrow> 'c \<Rightarrow> string option" where
  "getCacheFilePath lib cacheDir x y =
     (let key = fmt6 lib x @ '','' @ fmt6 lib y;
          safeKey = map (\<lambda>c. if c = CHR '','' then CHR ''_'' else c) key
      in if length safeKey < 4 then None
         else Some (cacheDir @ ''/'' @ take 4 safeKey @ ''/'' @ safeKey @ ''.json''))"

definition DiskCache_Get ::
  "'c golib \<Rightarrow> string \<Rightarrow> 'c \<Rightarrow> 'c \<Rightarrow> disk \<Rightarrow> (VegreferanseMatch list \<times> bool) option" where
  "DiskCache_Get lib cacheDir x y d =
     (case getCacheFilePath lib cacheDir x y of
        None \<Rightarrow> None
      | Some filePath \<Rightarrow>
          Some (case d filePath of
                  None \<Rightarrow> ([], False)
                | Some Unreadable \<Rightarrow> ([], False)
                | Some (Content data) \<Rightarrow>
                    (case unmarshalMatches lib data of
                       None \<Rightarrow> ([], False)
                     | Some ms \<Rightarrow> (ms, True))))"

text \<open>
  What the file system does to a write is an input of \<^verbatim>\<open>Set\<close>: it succeeds, the
  directory cannot be created, or the write fails and leaves something at the path.
\<close>

datatype set_fault = NoFault | MkdirFault | WriteFault "cache_file option"

datatype set_error = SerializeFailed | MkdirFailed | WriteFailed

definition DiskCache_Set ::
  "'c golib \<Rightarrow> string \<Rightarrow> 'c \<Rightarrow> 'c \<Rightarrow> VegreferanseMatch list \<Rightarrow> set_fault \<Rightarrow> disk \<Rightarrow>
     (set_error option \<times> disk) option" where
  "DiskCache_Set lib cacheDir x y ms flt d =
     (case getCacheFilePath lib cacheDir x y of
        None \<Rightarrow> None
      | Some filePath \<Rightarrow>
          Some (case marshal lib ms of
                  None \<Rightarrow> (Some SerializeFailed, d)
                | Some data \<Rightarrow>
                    (case flt of
                       MkdirFault \<Rightarrow> (Some MkdirFailed, d)
                     | WriteFault left \<Rightarrow> (Some WriteFailed, d(filePath := left))
                     | NoFault \<Rightarrow> (None, d(filePath \<mapsto> Content data)))))"

section \<open>The lookup client (VegvesenetAPIV4)\<close>

text \<open>
  The client: the cache directory when the disk cache is on. The rate limiter, which
  only delays a request, is modelled on its own below.
\<close>

record VegvesenetAPIV4 =
  baseURL :: string
  diskCache :: "string option"

datatype api_error =
    CreateRequestFailed
  | RequestFailed
  | ReadBodyFailed
  | ApiMessages "(int \<times> string) list"
  | ApiDetail string
  | ApiStatus int string
  | ParseFailed

text \<open>
  What the network does to one request: the request cannot be built, sending fails,
  reading the body fails, or a response with a status code and a body arrives.
\<close>

datatype http_outcome = CreateError | DoError | ReadError | Response int string

record call_env =
  http :: http_outcome
  fault :: set_fault

text \<open>The world a lookup changes: the files, and the requests sent (north, east).\<close>

record world =
  disk :: disk
  sent :: "(string \<times> string) list"

definition handleErrorResponse :: "'c golib \<Rightarrow> int \<Rightarrow> string \<Rightarrow> api_error option" where
  "handleErrorResponse lib statusCode respBody =
     (if statusCode = 404 then None
      else
        case unmarshalError lib respBody of
          Some errorResp \<Rightarrow>
            if length (Messages errorResp) > 0
            then Some (ApiMessages (map (\<lambda>msg. (Code msg, Message msg)) (Messages errorResp)))
            else if Detail errorResp \<noteq> [] then Some (ApiDetail (Detail errorResp))
            else Some (ApiStatus statusCode respBody)
        | None \<Rightarrow> Some (ApiStatus statusCode respBody))"

definition to_match :: "V4PositionResponseItem \<Rightarrow> VegreferanseMatch" where
  "to_match item =
     \<lparr>Vegsystemreferanse = item_Vegsystemreferanse item, Avstand = item_Avstand item\<rparr>"

text \<open>
  The two uses of the cache in \<^verbatim>\<open>GetVegreferanseMatches\<close>: the check at its start,
  and \<^verbatim>\<open>_ = api.diskCache.Set(x, y, matches)\<close>, whose error is dropped.
\<close>

definition cache_check ::
  "'c golib \<Rightarrow> VegvesenetAPIV4 \<Rightarrow> 'c \<Rightarrow> 'c \<Rightarrow> disk \<Rightarrow> VegreferanseMatch list option option" where
  "cache_check lib api x y d =
     (case diskCache api of
        None \<Rightarrow> Some None
      | Some cacheDir \<Rightarrow>
          (case DiskCache_Get lib cacheDir x y d of
             None \<Rightarrow> None
           | Some (ms, found) \<Rightarrow> Some (if found then Some ms else None)))"

definition cache_store ::
  "'c golib \<Rightarrow> VegvesenetAPIV4 \<Rightarrow> 'c \<Rightarrow> 'c \<Rightarrow> VegreferanseMatch list \<Rightarrow> set_fault \<Rightarrow> disk \<Rightarrow>
     disk option" where
  "cache_store lib api x y ms flt d =
     (case diskCache api of
        None \<Rightarrow> Some d
      | Some cacheDir \<Rightarrow> map_option snd (DiskCache_Set lib cacheDir x y ms flt d))"

definition GetVegreferanseMatches ::
  "'c golib \<Rightarrow> VegvesenetAPIV4 \<Rightarrow> 'c \<Rightarrow> 'c \<Rightarrow> call_env \<Rightarrow> world \<Rightarrow>
     ((api_error + VegreferanseMatch list) \<times> world) option" where
  "GetVegreferanseMatches lib api x y env w =
     (case cache_check lib api x y (disk w) of
        None \<Rightarrow> None
      | Some (Some ms) \<Rightarrow> Some (Inr ms, w)
      | Some None \<Rightarrow>
          (let w1 = w\<lparr>sent := sent w @ [(fmt6 lib y, fmt6 lib x)]\<rparr>
           in case http env of
                CreateError \<Rightarrow> Some (Inl CreateRequestFailed, w)
              | DoError \<Rightarrow> Some (Inl RequestFailed, w1)
              | ReadError \<Rightarrow> Some (Inl ReadBodyFailed, w1)
              | Response statusCode respBody \<Rightarrow>
                  (if statusCode \<noteq> 200 then
                     (if statusCode = 404
                      then map_option (\<lambda>d. (Inr [], w1\<lparr>disk := d\<rparr>))
                             (cache_store lib api x y [] (fault env) (disk w1))
                      else Some ((case handleErrorResponse lib statusCode respBody of
                                    None \<Rightarrow> Inr []
                                  | Some e \<Rightarrow> Inl e), w1))
                   else
                     (case unmarshalPosition lib respBody of
                        None \<Rightarrow> Some (Inl ParseFailed, w1)
                      | Some result \<Rightarrow>
                          (if length result = 0
                           then map_option (\<lambda>d. (Inr [], w1\<lparr>disk := d\<rparr>))
                                  (cache_store lib api x y [] (fault env) (disk w1))
                           else map_option
                                  (\<lambda>d. (Inr (map to_match result), w1\<lparr>disk := d\<rparr>))
                                  (cache_store lib api x y (map to_match result) (fault env)
                                     (disk w1)))))))"

section \<open>The kinds of answers to a provider call\<close>



section \<open>Example values for the lookup\<close>










section \<open>The rate limiter (RateLimiter)\<close>

text \<open>
  Times and durations are integers (nanoseconds of the monotonic clock); overflow of
  \<^verbatim>\<open>time.Duration\<close> is not modelled.
\<close>

record RateLimiter =
  calls :: "int list"
  limit :: int
  timeFrame :: int

text \<open>\<^verbatim>\<open>make([]time.Time, 0, limit)\<close> panics on a negative capacity.\<close>

definition NewRateLimiter :: "int \<Rightarrow> int \<Rightarrow> RateLimiter option" where
  "NewRateLimiter lmt frame =
     (if lmt < 0 then None else Some \<lparr>calls = [], limit = lmt, timeFrame = frame\<rparr>)"

text \<open>
  \<^verbatim>\<open>Wait\<close> holds the mutex from its first to its last statement, so the calls of all
  goroutines run one after the other, and an execution is a sequence of calls. Each call
  reads the clock after taking the lock. The clock is part of the state: it never goes
  back, and \<^verbatim>\<open>time.Sleep\<close> returns no earlier than asked. The two inputs of a call are
  the time that has passed since the previous reading of the clock and the time by which
  the sleep, if there is one, overruns. \<^verbatim>\<open>r.calls[0]\<close> on an empty slice panics
  (\<open>None\<close>).
\<close>

record limiter_world =
  limiter :: RateLimiter
  clock :: int

definition Wait :: "limiter_world \<Rightarrow> nat \<times> nat \<Rightarrow> limiter_world option" where
  "Wait w tk =
     (let r = limiter w;
          now = clock w + int (fst tk);
          validCalls = filter (\<lambda>call. now - call < timeFrame r) (calls r)
      in if int (length validCalls) \<ge> limit r then
           (case validCalls of
              [] \<Rightarrow> None
            | oldest # rest \<Rightarrow>
                (let waitTime = timeFrame r - (now - oldest)
                 in if waitTime > 0 then
                      (let now' = now + waitTime + int (snd tk);
                           validCalls' = filter (\<lambda>call. now' - call < timeFrame r) validCalls
                       in Some \<lparr>limiter = r\<lparr>calls := validCalls' @ [now']\<rparr>, clock = now'\<rparr>)
                    else Some \<lparr>limiter = r\<lparr>calls := validCalls @ [now]\<rparr>, clock = now\<rparr>))
         else Some \<lparr>limiter = r\<lparr>calls := validCalls @ [now]\<rparr>, clock = now\<rparr>)"

text \<open>
  The times at which the calls of an execution are admitted: the time each call records
  before it returns. A panic ends the execution.
\<close>

fun run_waits :: "limiter_world \<Rightarrow> int list \<Rightarrow> (nat \<times> nat) list \<Rightarrow> int list" where
  "run_waits w admitted_so_far [] = admitted_so_far"
| "run_waits w admitted_so_far (tk # rest) =
     (case Wait w tk of
        None \<Rightarrow> admitted_so_far
      | Some w' \<Rightarrow> run_waits w' (admitted_so_far @ [clock w']) rest)"

definition admitted :: "limiter_world \<Rightarrow> (nat \<times> nat) list \<Rightarrow> int list" where
  "admitted w ticks = run_waits w [] ticks"

text \<open>What holds between the calls of an execution.\<close>

definition limiter_inv :: "limiter_world \<Rightarrow> int list \<Rightarrow> bool" where
  "limiter_inv w A \<longleftrightarrow>
     int (length (calls (limiter w))) \<le> limit (limiter w) \<and>
     (\<forall>n\<ge>clock w. filter (\<lambda>t. n - t < timeFrame (limiter w)) A =
                     filter (\<lambda>t. n - t < timeFrame (limiter w)) (calls (limiter w))) \<and>
     (\<forall>a. int (length (filter (\<lambda>t. a \<le> t \<and> t < a + timeFrame (limiter w)) A))
            \<le> limit (limiter w))"

section \<open>Properties of the selector\<close>

subsection \<open>Evaluating the library functions\<close>






subsection \<open>The history\<close>

lemma AddToHistory_history:
  "history (AddToHistory s v) =
     (if v = [] then history s
      else if int (length (history s)) + 1 > maxHistory s then tl (history s @ [v])
      else history s @ [v])"
  by (simp add: AddToHistory_def Let_def)

lemma AddToHistory_maxHistory [simp]: "maxHistory (AddToHistory s v) = maxHistory s"
  by (simp add: AddToHistory_def Let_def)

lemma AddToHistory_nonempty:
  "[] \<notin> set (history s) \<Longrightarrow> [] \<notin> set (history (AddToHistory s v))"
  by (cases "history s") (auto simp: AddToHistory_history)

lemma take_rev_snoc: "take m (v # take m xs) = take m (v # xs)"
  by (cases m) simp_all

lemma drop_window_snoc:
  "drop (length (drop (length xs - m) xs @ [v]) - m) (drop (length xs - m) xs @ [v]) =
   drop (length (xs @ [v]) - m) (xs @ [v])"
proof -
  have w: "drop (length ys - m) ys = rev (take m (rev ys))" for ys :: "'a list"
    by (simp add: take_rev)
  show ?thesis
    unfolding w by (simp add: take_rev_snoc)
qed

lemma AddToHistory_window:
  assumes "0 \<le> maxHistory s" "int (length (history s)) \<le> maxHistory s" "v \<noteq> []"
  shows "history (AddToHistory s v) =
           drop (length (history s @ [v]) - nat (maxHistory s)) (history s @ [v])"
proof (cases "int (length (history s)) + 1 > maxHistory s")
  case True
  then have "length (history s) = nat (maxHistory s)" using assms by linarith
  then have "length (history s @ [v]) - nat (maxHistory s) = Suc 0" by simp
  then have "drop (length (history s @ [v]) - nat (maxHistory s)) (history s @ [v]) =
             tl (history s @ [v])"
    by (simp only: drop_Suc drop_0)
  then show ?thesis using True assms by (simp add: AddToHistory_history)
next
  case False
  then have "length (history s @ [v]) \<le> nat (maxHistory s)" by simp
  then show ?thesis using False assms by (simp add: AddToHistory_history)
qed

lemma foldl_AddToHistory_maxHistory [simp]:
  "maxHistory (foldl AddToHistory s ls) = maxHistory s"
  by (induction ls arbitrary: s) simp_all

lemma foldl_AddToHistory_window:
  assumes "0 \<le> maxHistory s" "int (length (history s)) \<le> maxHistory s" "[] \<notin> set ls"
  shows "history (foldl AddToHistory s ls) =
           drop (length (history s @ ls) - nat (maxHistory s)) (history s @ ls)"
  using assms
proof (induction ls rule: rev_induct)
  case Nil
  then show ?case by simp
next
  case (snoc v ls)
  let ?s = "foldl AddToHistory s ls"
  let ?m = "nat (maxHistory s)"
  let ?h = "history s @ ls"
  have ih: "history ?s = drop (length ?h - ?m) ?h"
    using snoc by simp
  have len: "int (length (history ?s)) \<le> maxHistory ?s"
    using snoc.prems(1) by (simp add: ih)
  have v: "v \<noteq> []" using snoc.prems by auto
  have "history (AddToHistory ?s v) = drop (length (history ?s @ [v]) - ?m) (history ?s @ [v])"
    using AddToHistory_window[of ?s v] snoc.prems(1) len v by simp
  also have "\<dots> = drop (length (?h @ [v]) - ?m) (?h @ [v])"
    unfolding ih by (rule drop_window_snoc)
  finally show ?case by simp
qed

text \<open>
  C8. Starting from a new selector of capacity \<open>n\<close>, after more than \<open>n\<close> non-empty
  labels have been added, the history holds exactly \<open>n\<close> entries: the \<open>n\<close> labels added
  last, in the order they were added. The entry added first is gone (when the labels are
  pairwise different, its label occurs nowhere in the history).
\<close>

theorem AddToHistory_eviction:
  assumes "NewVegreferanseSelector n = Some s0"
    and "[] \<notin> set ls"
    and "int (length ls) > n"
  shows "int (length (history (foldl AddToHistory s0 ls))) = n \<and>
         history (foldl AddToHistory s0 ls) = drop (length ls - nat n) ls \<and>
         (distinct ls \<longrightarrow> hd ls \<notin> set (history (foldl AddToHistory s0 ls)))"
proof -
  have n: "0 \<le> n" and s0: "s0 = \<lparr>history = [], maxHistory = n\<rparr>"
    using assms(1) by (auto simp: NewVegreferanseSelector_def split: if_splits)
  have h: "history (foldl AddToHistory s0 ls) = drop (length ls - nat n) ls"
    using foldl_AddToHistory_window[of s0 ls] n assms(2) by (simp add: s0)
  have len: "int (length (history (foldl AddToHistory s0 ls))) = n"
    unfolding h using n assms(3) by simp
  have "hd ls \<notin> set (drop (length ls - nat n) ls)" if d: "distinct ls"
  proof
    assume "hd ls \<in> set (drop (length ls - nat n) ls)"
    then obtain j where j: "j < length (drop (length ls - nat n) ls)"
      "drop (length ls - nat n) ls ! j = hd ls"
      by (auto simp: in_set_conv_nth)
    have pos: "0 < length ls - nat n" using n assms(3) by linarith
    have "ls ! (length ls - nat n + j) = ls ! 0"
      using j pos by (simp add: hd_conv_nth[symmetric]) (metis hd_conv_nth length_greater_0_conv less_nat_zero_code list.size(3) zero_less_diff)
    moreover have "length ls - nat n + j < length ls" using j by simp
    ultimately have "length ls - nat n + j = 0"
      using d pos by (metis distinct_conv_nth length_pos_if_in_set nth_mem)
    then show False using pos by simp
  qed
  then show ?thesis using h len by simp
qed

theorem AddToHistory_eviction_witness:
  "NewVegreferanseSelector 2 = Some \<lparr>history = [], maxHistory = 2\<rparr> \<and>
   [] \<notin> set [lit ''E18'', lit ''Fv1'', lit ''Kv2''] \<and>
   int (length [lit ''E18'', lit ''Fv1'', lit ''Kv2'']) > 2 \<and>
   history (foldl AddToHistory \<lparr>history = [], maxHistory = 2\<rparr> [lit ''E18'', lit ''Fv1'', lit ''Kv2''])
     = [lit ''Fv1'', lit ''Kv2''] \<and>
   lit ''E18'' \<notin> set (history (foldl AddToHistory \<lparr>history = [], maxHistory = 2\<rparr>
                                  [lit ''E18'', lit ''Fv1'', lit ''Kv2'']))"
proof -
  let ?ls = "[lit ''E18'', lit ''Fv1'', lit ''Kv2'']"
  have a: "NewVegreferanseSelector 2 = Some \<lparr>history = [], maxHistory = 2\<rparr>"
    by (simp add: NewVegreferanseSelector_def)
  have b: "[] \<notin> set ?ls" by (simp add: lit_def)
  have c: "int (length ?ls) > 2" by simp
  have d: "distinct ?ls" by (simp add: lit_def)
  from AddToHistory_eviction[OF a b c] d
  show ?thesis using a b c by simp
qed

subsection \<open>The history never holds the empty label\<close>

lemma selector_step_nonempty:
  "[] \<notin> set (history (fst st)) \<Longrightarrow> [] \<notin> set (history (fst (selector_step st op)))"
  by (cases st; cases op) (simp_all add: AddToHistory_nonempty)

lemma foldl_selector_step_nonempty:
  "[] \<notin> set (history (fst st)) \<Longrightarrow> [] \<notin> set (history (fst (foldl selector_step st ops)))"
  by (induction ops arbitrary: st) (simp_all add: selector_step_nonempty)

lemma selector_pass_snd_Cons:
  "snd (selector_pass s (r # rs)) =
     snd (selector_pass
            (if length (matches r) > 0 then AddToHistory s (SelectBestMatch s (matches r))
             else s) rs)"
  by (simp add: Let_def split: prod.splits)

lemma selector_pass_nonempty:
  "[] \<notin> set (history s) \<Longrightarrow> [] \<notin> set (history (snd (selector_pass s results)))"
proof (induction results arbitrary: s)
  case Nil
  then show ?case by simp
next
  case (Cons r rs)
  have "[] \<notin> set (history (if length (matches r) > 0
          then AddToHistory s (SelectBestMatch s (matches r)) else s))"
    using Cons.prems by (simp add: AddToHistory_nonempty)
  from Cons.IH[OF this] show ?case
    unfolding selector_pass_snd_Cons .
qed

text \<open>
  C9. From a new selector, after any sequence of \<^verbatim>\<open>AddToHistory\<close> and
  \<^verbatim>\<open>SelectBestMatch\<close> calls (adding the empty label included), and after the pass of
  \<^verbatim>\<open>applyVegreferanseSelector\<close> over any results, no entry of the history is the
  empty label; adding the empty label leaves the selector as it was.
\<close>

theorem history_never_empty_label:
  assumes "NewVegreferanseSelector n = Some s0"
  shows "[] \<notin> set (history (fst (foldl selector_step (s0, []) ops))) \<and>
         [] \<notin> set (history (snd (selector_pass s0 results))) \<and>
         AddToHistory s [] = s"
proof -
  have "history s0 = []"
    using assms by (auto simp: NewVegreferanseSelector_def split: if_splits)
  then have e: "[] \<notin> set (history s0)" by simp
  have "[] \<notin> set (history (fst (foldl selector_step (s0, []) ops)))"
    using foldl_selector_step_nonempty[of "(s0, [])" ops] e by simp
  moreover have "[] \<notin> set (history (snd (selector_pass s0 results)))"
    using e by (rule selector_pass_nonempty)
  moreover have "AddToHistory s [] = s" by (simp add: AddToHistory_def)
  ultimately show ?thesis by simp
qed

theorem history_never_empty_label_witness:
  "NewVegreferanseSelector 1 = Some \<lparr>history = [], maxHistory = 1\<rparr> \<and>
   [] \<notin> set (history (fst (foldl selector_step (\<lparr>history = [], maxHistory = 1\<rparr>, [])
        [OpAdd [], OpAdd (lit ''E18 S65D1 m12500''), OpSelect ex_matches, OpAdd []])))"
proof -
  have a: "NewVegreferanseSelector 1 = Some \<lparr>history = [], maxHistory = 1\<rparr>"
    by (simp add: NewVegreferanseSelector_def)
  from history_never_empty_label[OF a] a show ?thesis by blast
qed

subsection \<open>The scan for the best candidate\<close>

lemma scan_step_best:
  "bestScore (scan_step l st (i, m)) =
     (if match_score l m > bestScore st then match_score l m else bestScore st)"
  "bestMatch (scan_step l st (i, m)) =
     (if match_score l m > bestScore st then int i else bestMatch st)"
  by (simp_all add: scan_step_def match_score_def Let_def)

lemma enumerate_snoc: "enumerate k (xs @ [x]) = enumerate k xs @ [(k + length xs, x)]"
  by (simp add: enumerate_append_eq)

lemma scan_fold_best:
  "scan_kept l st ms (foldl (scan_step l) st (enumerate k ms)) \<or>
   (\<exists>i. scan_found l st k ms (foldl (scan_step l) st (enumerate k ms)) i)"
proof (induction ms rule: rev_induct)
  case Nil
  then show ?case by (simp add: scan_kept_def)
next
  case (snoc x xs)
  let ?r = "foldl (scan_step l) st (enumerate k xs)"
  let ?r' = "scan_step l ?r (k + length xs, x)"
  have step: "foldl (scan_step l) st (enumerate k (xs @ [x])) = ?r'"
    by (simp add: enumerate_snoc)
  show ?case
  proof (cases "match_score l x > bestScore ?r")
    case True
    have "scan_found l st k (xs @ [x]) ?r' (length xs)"
      using snoc True unfolding scan_kept_def scan_found_def
      by (auto simp: scan_step_best nth_append less_Suc_eq)
    then show ?thesis unfolding step by blast
  next
    case False
    from snoc show ?thesis
    proof
      assume "scan_kept l st xs ?r"
      then have "scan_kept l st (xs @ [x]) ?r'"
        using False unfolding scan_kept_def
        by (auto simp: scan_step_best nth_append less_Suc_eq)
      then show ?thesis unfolding step by blast
    next
      assume "\<exists>i. scan_found l st k xs ?r i"
      then obtain i where "scan_found l st k xs ?r i" ..
      then have "scan_found l st k (xs @ [x]) ?r' i"
        using False unfolding scan_found_def
        by (auto simp: scan_step_best nth_append less_Suc_eq)
      then show ?thesis unfolding step by blast
    qed
  qed
qed

lemma scan_best:
  "(bestMatch (scan l ms) = - 1 \<and> (\<forall>j<length ms. match_score l (ms ! j) \<le> - 1))
   \<or> (\<exists>i<length ms. bestMatch (scan l ms) = int i \<and> 0 \<le> match_score l (ms ! i) \<and>
         (\<forall>j<i. match_score l (ms ! j) < match_score l (ms ! i)) \<and>
         (\<forall>j<length ms. match_score l (ms ! j) \<le> match_score l (ms ! i)))"
  using scan_fold_best[of l "\<lparr>bestMatch = - 1, bestScore = - 1,
        closestMatchDistance = Avstand (ms ! 0), closestMatchIndex = 0\<rparr>" ms 0]
  unfolding scan_def scan_kept_def scan_found_def by auto


subsection \<open>What SelectBestMatch returns\<close>


text \<open>
  C10. For the empty candidate list \<^verbatim>\<open>SelectBestMatch\<close> returns the empty string, and
  for a non-empty list it returns the label of one of the candidates in the list,
  whatever the history.
\<close>

theorem SelectBestMatch_among_candidates:
  "SelectBestMatch s [] = [] \<and>
   (cands \<noteq> [] \<longrightarrow> (\<exists>i<length cands. SelectBestMatch s cands = label (cands ! i)))"
proof (intro conjI impI)
  show "SelectBestMatch s [] = []" by (simp add: SelectBestMatch_def)
next
  assume ne: "cands \<noteq> []"
  let ?st = "scan (history s ! (length (history s) - 1)) cands"
  have "bestMatch ?st \<ge> 0 \<Longrightarrow> nat (bestMatch ?st) < length cands"
    using scan_best[of "history s ! (length (history s) - 1)" cands] by auto
  then show "\<exists>i<length cands. SelectBestMatch s cands = label (cands ! i)"
    using ne by (auto simp: SelectBestMatch_def Let_def)
qed

theorem SelectBestMatch_among_candidates_witness:
  "ex_matches \<noteq> [] \<and>
   (\<exists>i<length ex_matches. SelectBestMatch ex_selector ex_matches = label (ex_matches ! i))"
proof -
  have ne: "ex_matches \<noteq> []" by (simp add: ex_matches_def)
  from SelectBestMatch_among_candidates[of ex_selector ex_matches] ne
  show ?thesis by blast
qed




subsection \<open>The score\<close>


lemma extractCategory_maximal_prefix:
  "\<exists>rest. road = extractCategory road @ rest \<and>
      (\<forall>c\<in>set (extractCategory road). \<not> isDigit c) \<and>
      (rest = [] \<or> isDigit (hd rest))"
proof (intro exI[of _ "dropWhile (\<lambda>char. \<not> isDigit char) road"] conjI)
  show "road = extractCategory road @ dropWhile (\<lambda>char. \<not> isDigit char) road"
    by (simp add: extractCategory_def)
  show "\<forall>c\<in>set (extractCategory road). \<not> isDigit c"
    by (auto simp: extractCategory_def dest: set_takeWhileD)
  show "dropWhile (\<lambda>char. \<not> isDigit char) road = [] \<or>
        isDigit (hd (dropWhile (\<lambda>char. \<not> isDigit char) road))"
    using hd_dropWhile[of "\<lambda>char. \<not> isDigit char" road] by auto
qed

lemma go_int_truncates:
  "0 \<le> r \<Longrightarrow> real_of_int (go_int r) \<le> r \<and> r < real_of_int (go_int r) + 1"
  by (simp add: go_int_def)




section \<open>Properties of the batch stage\<close>

subsection \<open>Every task is answered exactly once\<close>

lemma in_flight_update:
  "w < length ws \<Longrightarrow> in_flight (ws[w := v]) + held (ws ! w) = in_flight ws + held v"
  unfolding in_flight_def
proof (induction ws arbitrary: w)
  case Nil
  then show ?case by simp
next
  case (Cons a ws)
  show ?case
  proof (cases w)
    case 0
    then show ?thesis by (simp add: ac_simps)
  next
    case (Suc k)
    then have "k < length ws" using Cons.prems by simp
    from Cons.IH[OF this] show ?thesis using Suc by (simp add: ac_simps)
  qed
qed

lemma in_flight_all_Exited: "\<forall>w\<in>set ws. w = Exited \<Longrightarrow> in_flight ws = {#}"
  unfolding in_flight_def by (induction ws) simp_all

lemma in_flight_replicate_Idle: "in_flight (replicate n Idle) = {#}"
  unfolding in_flight_def by (induction n) simp_all

lemma Exited_in_update:
  "Exited \<in> set (ws[w := v]) \<Longrightarrow> v \<noteq> Exited \<Longrightarrow> Exited \<in> set ws"
  using set_update_subset_insert[of ws w v] by auto

lemma pool_inv_init: "pool_inv work (tasks_of lines) n (pool_init lines n)"
  by (simp add: pool_inv_def pool_init_def in_flight_replicate_Idle)

lemma pool_inv_step:
  assumes "pool_step work s s'" and "pool_inv work tasks n s"
  shows "pool_inv work tasks n s'"
  using assms
proof (cases rule: pool_step.cases)
  case (queue_task t ts)
  then show ?thesis using assms(2) by (auto simp: pool_inv_def)
next
  case close_tasks
  then show ?thesis using assms(2) by (auto simp: pool_inv_def)
next
  case (take_task w t q)
  from assms(2) obtain dn where d: "list_all2 work dn (resultChannel s)"
    "mset dn + in_flight (workers s) + mset (taskChannel s) + mset (unsent s) = mset tasks"
    by (auto simp: pool_inv_def)
  have "in_flight ((workers s)[w := Busy t]) = in_flight (workers s) + {#t#}"
    using in_flight_update[of w "workers s" "Busy t"] take_task by simp
  then have "mset dn + in_flight ((workers s)[w := Busy t]) + mset q + mset (unsent s) = mset tasks"
    using d(2) take_task by simp
  moreover have "Exited \<notin> set ((workers s)[w := Busy t])"
    using Exited_in_update[of "workers s" w "Busy t"] assms(2) take_task
    by (auto simp: pool_inv_def)
  ultimately show ?thesis using assms(2) take_task d(1) by (auto simp: pool_inv_def)
next
  case (send_result w t r)
  from assms(2) obtain dn where d: "list_all2 work dn (resultChannel s)"
    "mset dn + in_flight (workers s) + mset (taskChannel s) + mset (unsent s) = mset tasks"
    by (auto simp: pool_inv_def)
  have "in_flight ((workers s)[w := Idle]) + {#t#} = in_flight (workers s)"
    using in_flight_update[of w "workers s" Idle] send_result by simp
  then have "mset (dn @ [t]) + in_flight ((workers s)[w := Idle]) + mset (taskChannel s)
      + mset (unsent s) = mset tasks"
    using d(2) by (simp add: ac_simps) (metis add.commute add.left_commute add_mset_add_single)
  moreover have "list_all2 work (dn @ [t]) (resultChannel s @ [r])"
    using d(1) send_result by (simp add: list_all2_appendI)
  moreover have "Exited \<in> set ((workers s)[w := Idle]) \<Longrightarrow> Exited \<in> set (workers s)"
    using Exited_in_update[of "workers s" w Idle] by simp
  ultimately show ?thesis using assms(2) send_result
    unfolding pool_inv_def by (simp del: mset_append) blast
next
  case (worker_exit w)
  from assms(2) obtain dn where d: "list_all2 work dn (resultChannel s)"
    "mset dn + in_flight (workers s) + mset (taskChannel s) + mset (unsent s) = mset tasks"
    by (auto simp: pool_inv_def)
  have "in_flight ((workers s)[w := Exited]) = in_flight (workers s)"
    using in_flight_update[of w "workers s" Exited] worker_exit by simp
  then show ?thesis using assms(2) worker_exit d unfolding pool_inv_def by auto
qed

lemma pool_inv_reachable:
  "(pool_step work)\<^sup>*\<^sup>* (pool_init lines n) s \<Longrightarrow> pool_inv work (tasks_of lines) n s"
  by (induction rule: rtranclp_induct) (auto intro: pool_inv_init pool_inv_step)

lemma joined_all_answered:
  assumes "(pool_step work)\<^sup>*\<^sup>* (pool_init lines n) s" "joined s" "1 \<le> n"
  shows "\<exists>dn. list_all2 work dn (resultChannel s) \<and> mset dn = mset (tasks_of lines)"
proof -
  have inv: "pool_inv work (tasks_of lines) n s"
    using assms(1) by (rule pool_inv_reachable)
  then have "workers s \<noteq> []" using assms(3) by (auto simp: pool_inv_def)
  then have ex: "Exited \<in> set (workers s)"
    using assms(2) by (cases "workers s") (auto simp: joined_def)
  have "in_flight (workers s) = {#}"
    using assms(2) by (auto simp: joined_def intro: in_flight_all_Exited)
  then show ?thesis using inv ex by (auto simp: pool_inv_def)
qed

lemma process_task_keeps:
  "lineIdx (process_task c pf p t) = task_lineIdx t \<and> line (process_task c pf p t) = task_line t"
  by (simp add: process_task_def Let_def split: option.splits sum.splits)

lemma worker_of_keeps:
  "worker_of c pf P t r \<Longrightarrow> lineIdx r = task_lineIdx t \<and> line r = task_line t"
  by (auto simp: worker_of_def process_task_keeps)

lemma length_tasks_of [simp]: "length (tasks_of lines) = length lines"
  by (simp add: tasks_of_def)

lemma nth_tasks_of:
  "i < length lines \<Longrightarrow> tasks_of lines ! i = \<lparr>task_lineIdx = int i, task_line = lines ! i\<rparr>"
  by (simp add: tasks_of_def nth_enumerate_eq)

lemma map_lineIdx_tasks_of: "map task_lineIdx (tasks_of lines) = map int [0..<length lines]"
  by (rule nth_equalityI) (simp_all add: nth_tasks_of)

subsection \<open>Collecting and sorting\<close>

lemma collect_distinct:
  assumes "distinct (map lineIdx rs)"
    and "\<forall>r\<in>set rs. 0 \<le> lineIdx r \<and> lineIdx r < int (length init)"
  shows "\<exists>res. collect init rs = Some res \<and> length res = length init \<and>
           (\<forall>r\<in>set rs. res ! nat (lineIdx r) = r) \<and>
           (\<forall>i<length init. int i \<notin> lineIdx ` set rs \<longrightarrow> res ! i = init ! i)"
  using assms
proof (induction rs arbitrary: init)
  case Nil
  then show ?case by simp
next
  case (Cons r rs)
  let ?init = "init[nat (lineIdx r) := r]"
  have rng: "0 \<le> lineIdx r" "lineIdx r < int (length init)" using Cons.prems(2) by auto
  have "distinct (map lineIdx rs)" using Cons.prems(1) by simp
  moreover have "\<forall>r\<in>set rs. 0 \<le> lineIdx r \<and> lineIdx r < int (length ?init)"
    using Cons.prems(2) by simp
  ultimately obtain res where res: "collect ?init rs = Some res" "length res = length ?init"
    "\<forall>r\<in>set rs. res ! nat (lineIdx r) = r"
    "\<forall>i<length ?init. int i \<notin> lineIdx ` set rs \<longrightarrow> res ! i = ?init ! i"
    using Cons.IH[of ?init] by blast
  have fresh: "lineIdx r \<notin> lineIdx ` set rs" using Cons.prems(1) by auto
  have "res ! nat (lineIdx r) = ?init ! nat (lineIdx r)"
    using res(4) rng fresh by simp
  then have r: "res ! nat (lineIdx r) = r" using rng by simp
  have "res ! i = init ! i" if "i < length init" "int i \<notin> lineIdx ` set (r # rs)" for i
  proof -
    have "i \<noteq> nat (lineIdx r)" using that(2) rng by auto
    then show ?thesis using res(4) that by simp
  qed
  then show ?case using res(1,2,3) r rng by simp
qed

lemma sorted_keys_unique:
  fixes key :: "'a \<Rightarrow> int"
  assumes "mset ys = mset xs" "sorted (map key ys)" "sorted (map key xs)" "distinct (map key xs)"
  shows "ys = xs"
proof -
  have m: "mset (map key ys) = mset (map key xs)" using assms(1) by simp
  then have k: "map key ys = map key xs"
    using assms(2,3) by (metis properties_for_sort)
  have len: "length ys = length xs" using assms(1) by (metis size_mset)
  have inj: "inj_on key (set xs)" using assms(4) by (simp add: distinct_map)
  show ?thesis
  proof (rule nth_equalityI[OF len])
    fix i assume i: "i < length ys"
    then have "ys ! i \<in> set xs" using assms(1) by (metis nth_mem set_mset_mset)
    moreover have "xs ! i \<in> set xs" using i len by simp
    moreover have "key (ys ! i) = key (xs ! i)"
      using k i len by (metis nth_map)
    ultimately show "ys ! i = xs ! i" using inj by (auto dest: inj_onD)
  qed
qed

text \<open>
  After the join, with at least one worker, collecting and sorting give one result per
  line, in the order of the lines, each one a result the worker relation allows for its
  task.
\<close>

lemma pool_result:
  assumes run: "(pool_step work)\<^sup>*\<^sup>* (pool_init lines n) s" "joined s"
    and n: "1 \<le> n"
    and keeps: "\<And>t r. work t r \<Longrightarrow> lineIdx r = task_lineIdx t"
    and srt: "sorts_by_lineIdx srt"
  shows "\<exists>res. collect (replicate (length lines) zero_result) (resultChannel s) = Some res \<and>
           srt res = res \<and> list_all2 work (tasks_of lines) res"
proof -
  let ?N = "length lines"
  let ?chan = "resultChannel s"
  obtain dn where dn: "list_all2 work dn ?chan" "mset dn = mset (tasks_of lines)"
    using joined_all_answered[OF run n] by blast
  have idx: "map lineIdx ?chan = map task_lineIdx dn"
  proof (rule nth_equalityI)
    show "length (map lineIdx ?chan) = length (map task_lineIdx dn)"
      using dn(1) by (simp add: list_all2_lengthD)
  next
    fix i assume "i < length (map lineIdx ?chan)"
    then show "map lineIdx ?chan ! i = map task_lineIdx dn ! i"
      using dn(1) keeps by (simp add: list_all2_conv_all_nth)
  qed
  have "mset (map task_lineIdx dn) = mset (map task_lineIdx (tasks_of lines))"
    using dn(2) by (metis mset_map)
  then have ms: "mset (map lineIdx ?chan) = mset (map int [0..<?N])"
    by (simp add: idx map_lineIdx_tasks_of)
  have "distinct (map int [0..<?N])" by (simp add: distinct_map)
  then have dist: "distinct (map lineIdx ?chan)"
    using ms by (metis mset_eq_imp_distinct_iff)
  have st: "lineIdx ` set ?chan = int ` {0..<?N}"
    using ms by (metis (no_types) image_set mset_eq_setD set_upt)
  have rng: "\<forall>r\<in>set ?chan. 0 \<le> lineIdx r \<and>
      lineIdx r < int (length (replicate ?N (zero_result :: 'a processResult)))"
  proof
    fix r assume "r \<in> set ?chan"
    then have "lineIdx r \<in> int ` {0..<?N}" using st by blast
    then show "0 \<le> lineIdx r \<and>
      lineIdx r < int (length (replicate ?N (zero_result :: 'a processResult)))"
      by auto
  qed
  from collect_distinct[OF dist rng]
  obtain res where res: "collect (replicate ?N zero_result) ?chan = Some res"
    "length res = ?N" "\<forall>r\<in>set ?chan. res ! nat (lineIdx r) = r"
    by auto
  have at: "work (tasks_of lines ! i) (res ! i) \<and> lineIdx (res ! i) = int i" if i: "i < ?N" for i
  proof -
    have "int i \<in> lineIdx ` set ?chan" using st i by simp
    then obtain r where r: "r \<in> set ?chan" "lineIdx r = int i" by auto
    then have ri: "res ! i = r" using res(3) by force
    from r(1) obtain j where j: "j < length ?chan" "?chan ! j = r"
      by (auto simp: in_set_conv_nth)
    then have w: "work (dn ! j) r" and jl: "j < length dn"
      using dn(1) by (auto simp: list_all2_conv_all_nth)
    have "dn ! j \<in> set (tasks_of lines)"
      using jl dn(2) by (metis nth_mem set_mset_mset)
    then obtain k where k: "k < ?N" "dn ! j = tasks_of lines ! k"
      by (auto simp: in_set_conv_nth)
    have "task_lineIdx (dn ! j) = int i" using keeps[OF w] r(2) by simp
    then have "k = i" using k by (simp add: nth_tasks_of)
    then show ?thesis using w k ri r(2) by simp
  qed
  then have all2: "list_all2 work (tasks_of lines) res"
    using res(2) by (simp add: list_all2_conv_all_nth)
  have keys: "map lineIdx res = map int [0..<?N]"
    using at res(2) by (intro nth_equalityI) simp_all
  have "sorted (map lineIdx res)" "distinct (map lineIdx res)"
    unfolding keys by (simp_all add: distinct_map sorted_map strict_sorted_iff[symmetric] sorted_wrt_iff_nth_less)
  moreover have "mset (srt res) = mset res" "sorted (map lineIdx (srt res))"
    using srt by (auto simp: sorts_by_lineIdx_def)
  ultimately have "srt res = res" by (intro sorted_keys_unique[of _ _ lineIdx])
  then show ?thesis using res(1) all2 by blast
qed

subsection \<open>The batch stage runs to completion\<close>

lemma queue_all:
  "(pool_step work)\<^sup>*\<^sup>*
     \<lparr>unsent = u, taskChannel = q, closed = False, workers = ws, resultChannel = rc\<rparr>
     \<lparr>unsent = [], taskChannel = q @ u, closed = False, workers = ws, resultChannel = rc\<rparr>"
proof (induction u arbitrary: q)
  case Nil
  then show ?case by simp
next
  case (Cons t ts)
  have "pool_step work
      \<lparr>unsent = t # ts, taskChannel = q, closed = False, workers = ws, resultChannel = rc\<rparr>
      \<lparr>unsent = ts, taskChannel = q @ [t], closed = False, workers = ws, resultChannel = rc\<rparr>"
    using queue_task[of "\<lparr>unsent = t # ts, taskChannel = q, closed = False, workers = ws,
      resultChannel = rc\<rparr>" t ts work] by simp
  moreover have "(pool_step work)\<^sup>*\<^sup>*
      \<lparr>unsent = ts, taskChannel = q @ [t], closed = False, workers = ws, resultChannel = rc\<rparr>
      \<lparr>unsent = [], taskChannel = q @ t # ts, closed = False, workers = ws,
       resultChannel = rc\<rparr>"
    using Cons.IH[of "q @ [t]"] by simp
  ultimately show ?case by (rule converse_rtranclp_into_rtranclp)
qed

lemma drain_with_first_worker:
  assumes total: "\<And>t. \<exists>r. work t r" and n: "1 \<le> n"
  shows "\<exists>rs. (pool_step work)\<^sup>*\<^sup>*
     \<lparr>unsent = [], taskChannel = q, closed = True, workers = replicate n Idle,
      resultChannel = rc\<rparr>
     \<lparr>unsent = [], taskChannel = [], closed = True, workers = replicate n Idle,
      resultChannel = rc @ rs\<rparr>"
proof (induction q arbitrary: rc)
  case Nil
  have "(pool_step work)\<^sup>*\<^sup>*
     \<lparr>unsent = [], taskChannel = [], closed = True, workers = replicate n Idle,
      resultChannel = rc\<rparr>
     \<lparr>unsent = [], taskChannel = [], closed = True, workers = replicate n Idle,
      resultChannel = rc @ []\<rparr>" by simp
  then show ?case by blast
next
  case (Cons t q)
  obtain r where r: "work t r" using total by blast
  let ?s0 = "\<lparr>unsent = [], taskChannel = t # q, closed = True, workers = replicate n Idle,
      resultChannel = rc\<rparr>"
  let ?s1 = "\<lparr>unsent = [], taskChannel = q, closed = True,
      workers = (replicate n Idle)[0 := Busy t], resultChannel = rc\<rparr>"
  let ?s2 = "\<lparr>unsent = [], taskChannel = q, closed = True, workers = replicate n Idle,
      resultChannel = rc @ [r]\<rparr>"
  have restored: "(replicate n Idle)[0 := Idle] = replicate n Idle"
    using n by (cases n) simp_all
  have s01: "pool_step work ?s0 ?s1"
    using take_task[of 0 ?s0 t q work] n by simp
  have s12: "pool_step work ?s1 ?s2"
    using send_result[of 0 ?s1 t work r] n r by (simp add: restored)
  obtain rs where "(pool_step work)\<^sup>*\<^sup>* ?s2
     \<lparr>unsent = [], taskChannel = [], closed = True, workers = replicate n Idle,
      resultChannel = (rc @ [r]) @ rs\<rparr>"
    using Cons.IH[of "rc @ [r]"] by blast
  then have "(pool_step work)\<^sup>*\<^sup>* ?s2
     \<lparr>unsent = [], taskChannel = [], closed = True, workers = replicate n Idle,
      resultChannel = rc @ (r # rs)\<rparr>"
    by simp
  then have "(pool_step work)\<^sup>*\<^sup>* ?s0
     \<lparr>unsent = [], taskChannel = [], closed = True, workers = replicate n Idle,
      resultChannel = rc @ (r # rs)\<rparr>"
    using s01 s12 by (blast intro: converse_rtranclp_into_rtranclp)
  then show ?case by blast
qed

lemma exit_all:
  "(pool_step work)\<^sup>*\<^sup>*
     \<lparr>unsent = [], taskChannel = [], closed = True,
      workers = replicate k Exited @ replicate m Idle, resultChannel = rc\<rparr>
     \<lparr>unsent = [], taskChannel = [], closed = True,
      workers = replicate (k + m) Exited, resultChannel = rc\<rparr>"
proof (induction m arbitrary: k)
  case 0
  then show ?case by simp
next
  case (Suc m)
  let ?s0 = "\<lparr>unsent = [], taskChannel = [], closed = True,
      workers = replicate k Exited @ replicate (Suc m) Idle, resultChannel = rc\<rparr>"
  have upd: "(replicate k Exited @ replicate (Suc m) Idle)[k := Exited] =
      replicate (Suc k) Exited @ replicate m Idle"
    by (simp add: list_update_append replicate_app_Cons_same)
  have "pool_step work ?s0 \<lparr>unsent = [], taskChannel = [], closed = True,
      workers = replicate (Suc k) Exited @ replicate m Idle, resultChannel = rc\<rparr>"
    using worker_exit[of k ?s0 work] by (simp add: nth_append upd del: replicate_Suc) 
  moreover have "(pool_step work)\<^sup>*\<^sup>*
      \<lparr>unsent = [], taskChannel = [], closed = True,
       workers = replicate (Suc k) Exited @ replicate m Idle, resultChannel = rc\<rparr>
      \<lparr>unsent = [], taskChannel = [], closed = True,
       workers = replicate (k + Suc m) Exited, resultChannel = rc\<rparr>"
    using Suc.IH[of "Suc k"] by simp
  ultimately show ?case by (rule converse_rtranclp_into_rtranclp)
qed

lemma pool_can_finish:
  assumes total: "\<And>t. \<exists>r. work t r"
  shows "\<exists>s. (pool_step work)\<^sup>*\<^sup>* (pool_init lines n) s \<and> joined s"
proof -
  let ?q = "tasks_of lines"
  let ?a = "\<lparr>unsent = [], taskChannel = ?q, closed = False, workers = replicate n Idle,
      resultChannel = []\<rparr> :: 'a pool_state"
  let ?b = "\<lparr>unsent = [], taskChannel = ?q, closed = True, workers = replicate n Idle,
      resultChannel = []\<rparr> :: 'a pool_state"
  have q: "(pool_step work)\<^sup>*\<^sup>* (pool_init lines n) ?a"
    using queue_all[where work = work and u = ?q and q = "[]" and ws = "replicate n Idle" and rc = "[]"]
    by (simp add: pool_init_def)
  have "pool_step work ?a ?b" using close_tasks[of ?a work] by simp
  then have b: "(pool_step work)\<^sup>*\<^sup>* (pool_init lines n) ?b"
    using q by (rule rtranclp.rtrancl_into_rtrancl[rotated])
  show ?thesis
  proof (cases "n = 0")
    case True
    then have "joined ?b" by (simp add: joined_def)
    then show ?thesis using b by blast
  next
    case False
    then have n: "1 \<le> n" by simp
    obtain rs where c: "(pool_step work)\<^sup>*\<^sup>* ?b
       \<lparr>unsent = [], taskChannel = [], closed = True, workers = replicate n Idle,
        resultChannel = [] @ rs\<rparr>"
      using drain_with_first_worker[where work = work and q = ?q and rc = "[]", OF total n]
      by blast
    have d: "(pool_step work)\<^sup>*\<^sup>*
       \<lparr>unsent = [], taskChannel = [], closed = True, workers = replicate n Idle,
        resultChannel = rs\<rparr>
       \<lparr>unsent = [], taskChannel = [], closed = True, workers = replicate n Exited,
        resultChannel = rs\<rparr>"
      using exit_all[where work = work and k = 0 and m = n and rc = rs] by simp
    have "joined (\<lparr>unsent = [], taskChannel = [], closed = True, workers = replicate n Exited,
        resultChannel = rs\<rparr> :: 'a pool_state)"
      by (simp add: joined_def)
    moreover have "(pool_step work)\<^sup>*\<^sup>* (pool_init lines n)
       \<lparr>unsent = [], taskChannel = [], closed = True, workers = replicate n Exited,
        resultChannel = rs\<rparr>"
      using rtranclp_trans[OF rtranclp_trans[OF b c]] d by simp
    ultimately show ?thesis by blast
  qed
qed

lemma worker_of_total: "P \<noteq> {} \<Longrightarrow> \<exists>r. worker_of c pf P t r"
  by (auto simp: worker_of_def)

subsection \<open>The selector pass and the output\<close>

lemma selector_pass_fst_Cons:
  "fst (selector_pass sel (r # rs)) =
     (if length (matches r) > 0
      then r\<lparr>vegreferanse := SelectBestMatch sel (matches r)\<rparr> #
           fst (selector_pass (AddToHistory sel (SelectBestMatch sel (matches r))) rs)
      else r # fst (selector_pass sel rs))"
  by (simp add: Let_def split: prod.splits)

lemma selector_pass_keeps:
  "map lineIdx (fst (selector_pass sel rs)) = map lineIdx rs"
  "map line (fst (selector_pass sel rs)) = map line rs"
  "map err (fst (selector_pass sel rs)) = map err rs"
  by (induction rs arbitrary: sel)
     (simp_all add: selector_pass_fst_Cons del: selector_pass.simps(2))

lemma selector_pass_length: "length (fst (selector_pass sel rs)) = length rs"
  using selector_pass_keeps(1)[of sel rs] by (metis length_map)

lemma selector_pass_nth:
  assumes "i < length rs"
  shows "lineIdx (fst (selector_pass sel rs) ! i) = lineIdx (rs ! i)"
    and "line (fst (selector_pass sel rs) ! i) = line (rs ! i)"
    and "err (fst (selector_pass sel rs) ! i) = err (rs ! i)"
proof -
  let ?f = "fst (selector_pass sel rs)"
  have i: "i < length ?f" using assms by (simp add: selector_pass_length)
  have "lineIdx (?f ! i) = map lineIdx ?f ! i" using i by (simp only: nth_map)
  also have "\<dots> = map lineIdx rs ! i" by (simp only: selector_pass_keeps)
  finally show "lineIdx (?f ! i) = lineIdx (rs ! i)" using assms by (simp only: nth_map)
  have "line (?f ! i) = map line ?f ! i" using i by (simp only: nth_map)
  also have "\<dots> = map line rs ! i" by (simp only: selector_pass_keeps)
  finally show "line (?f ! i) = line (rs ! i)" using assms by (simp only: nth_map)
  have "err (?f ! i) = map err ?f ! i" using i by (simp only: nth_map)
  also have "\<dots> = map err rs ! i" by (simp only: selector_pass_keeps)
  finally show "err (?f ! i) = err (rs ! i)" using assms by (simp only: nth_map)
qed

lemma applyVegreferanseSelector_Some:
  "applyVegreferanseSelector rs = Some (fst (selector_pass \<lparr>history = [], maxHistory = 10\<rparr> rs))"
  by (simp add: applyVegreferanseSelector_def NewVegreferanseSelector_def)

lemma writeResults_indices:
  "writeResults h rs =
     (h @ [10]) # map (\<lambda>i. line (rs ! i) @ [9] @ vegreferanse (rs ! i) @ [10])
                    (filter (\<lambda>i. err (rs ! i) = None) [0..<length rs])"
proof -
  have "filter (\<lambda>r. err r = None) rs =
        filter (\<lambda>r. err r = None) (map (nth rs) [0..<length rs])"
    by (simp add: map_nth)
  also have "\<dots> = map (nth rs) (filter (\<lambda>i. err (rs ! i) = None) [0..<length rs])"
    by (simp add: filter_map comp_def)
  finally show ?thesis by (simp add: writeResults_def comp_def)
qed

subsection \<open>Order of the results and of the output\<close>

lemma sort_key_sorts: "sorts_by_lineIdx (sort_key lineIdx)"
  by (simp add: sorts_by_lineIdx_def)

lemma batch_results:
  assumes n: "1 \<le> n" and srt: "sorts_by_lineIdx srt"
    and run: "processCoordinatesToVegreferanse srt (worker_of c pf P) lines n out"
  shows "\<exists>results. out = Some results \<and> list_all2 (worker_of c pf P) (tasks_of lines) results"
proof -
  from run obtain s where s: "(pool_step (worker_of c pf P))\<^sup>*\<^sup>* (pool_init lines n) s"
    "joined s"
    "out = map_option srt (collect (replicate (length lines) zero_result) (resultChannel s))"
    by (auto simp: processCoordinatesToVegreferanse_def)
  have keeps: "\<And>t r. worker_of c pf P t r \<Longrightarrow> lineIdx r = task_lineIdx t"
    by (simp add: worker_of_keeps)
  from pool_result[OF s(1,2) n keeps srt] s(3) show ?thesis by auto
qed

text \<open>
  C2. With at least one worker, whatever the interleaving of the goroutines and whatever
  the provider answers, the batch stage returns one result per input line with
  \<open>result[i].lineIdx = i\<close> (and the text of line \<open>i\<close>), and it does return. The
  output then holds, after the header, the lines without an error in input order, each
  followed by a tab and its label.
\<close>

theorem batch_order_preserved:
  assumes "1 \<le> n" and "sorts_by_lineIdx srt" and "P \<noteq> {}"
  shows "(\<exists>out. processCoordinatesToVegreferanse srt (worker_of modeConfig ParseFloat P) lines n out) \<and>
         (\<forall>out. processCoordinatesToVegreferanse srt (worker_of modeConfig ParseFloat P) lines n out \<longrightarrow>
            (\<exists>results labels.
               out = Some results \<and> length results = length lines \<and>
               length labels = length lines \<and>
               (\<forall>i<length lines. lineIdx (results ! i) = int i \<and> line (results ! i) = lines ! i) \<and>
               output_of header results =
                 Some ((header @ 9 # lit ''Vegreferanse'' @ [10]) #
                       map (\<lambda>i. lines ! i @ [9] @ labels ! i @ [10])
                         (filter (\<lambda>i. err (results ! i) = None) [0..<length lines]))))"
proof (intro conjI allI impI)
  let ?work = "worker_of modeConfig ParseFloat P"
  obtain s where "(pool_step ?work)\<^sup>*\<^sup>* (pool_init lines n) s" "joined s"
    using pool_can_finish[of ?work lines n] worker_of_total[OF assms(3)] by blast
  then show "\<exists>out. processCoordinatesToVegreferanse srt ?work lines n out"
    unfolding processCoordinatesToVegreferanse_def by blast
next
  fix out
  let ?work = "worker_of modeConfig ParseFloat P"
  let ?N = "length lines"
  assume "processCoordinatesToVegreferanse srt ?work lines n out"
  from batch_results[OF assms(1,2) this]
  obtain results where r: "out = Some results" "list_all2 ?work (tasks_of lines) results"
    by blast
  have len: "length results = ?N" using r(2) by (simp add: list_all2_lengthD[symmetric])
  have at: "lineIdx (results ! i) = int i \<and> line (results ! i) = lines ! i" if "i < ?N" for i
  proof -
    have "?work (tasks_of lines ! i) (results ! i)"
      using r(2) that by (simp add: list_all2_conv_all_nth)
    then show ?thesis using that by (simp add: worker_of_keeps nth_tasks_of)
  qed
  let ?final = "fst (selector_pass \<lparr>history = [], maxHistory = 10\<rparr> results)"
  let ?labels = "map vegreferanse ?final"
  have flen: "length ?final = ?N" by (simp add: selector_pass_length len)
  have "output_of header results = Some (writeResults (header @ 9 # lit ''Vegreferanse'') ?final)"
    by (simp add: output_of_def applyVegreferanseSelector_Some)
  also have "writeResults (header @ 9 # lit ''Vegreferanse'') ?final =
      (header @ 9 # lit ''Vegreferanse'' @ [10]) #
      map (\<lambda>i. line (?final ! i) @ [9] @ vegreferanse (?final ! i) @ [10])
        (filter (\<lambda>i. err (?final ! i) = None) [0..<?N])"
    by (simp add: writeResults_indices flen)
  also have "filter (\<lambda>i. err (?final ! i) = None) [0..<?N] =
      filter (\<lambda>i. err (results ! i) = None) [0..<?N]"
    by (rule filter_cong) (simp_all add: selector_pass_nth len)
  also have "map (\<lambda>i. line (?final ! i) @ [9] @ vegreferanse (?final ! i) @ [10])
        (filter (\<lambda>i. err (results ! i) = None) [0..<?N]) =
      map (\<lambda>i. lines ! i @ [9] @ ?labels ! i @ [10])
        (filter (\<lambda>i. err (results ! i) = None) [0..<?N])"
    by (rule map_cong) (simp_all add: selector_pass_nth len flen at)
  finally have "output_of header results =
      Some ((header @ 9 # lit ''Vegreferanse'' @ [10]) #
            map (\<lambda>i. lines ! i @ [9] @ ?labels ! i @ [10])
              (filter (\<lambda>i. err (results ! i) = None) [0..<?N]))" .
  moreover have "length ?labels = ?N" using flen by simp
  ultimately show "\<exists>results labels.
       out = Some results \<and> length results = ?N \<and> length labels = ?N \<and>
       (\<forall>i<?N. lineIdx (results ! i) = int i \<and> line (results ! i) = lines ! i) \<and>
       output_of header results =
         Some ((header @ 9 # lit ''Vegreferanse'' @ [10]) #
               map (\<lambda>i. lines ! i @ [9] @ labels ! i @ [10])
                 (filter (\<lambda>i. err (results ! i) = None) [0..<?N]))"
    using r(1) len at by blast
qed

theorem batch_order_preserved_witness:
  "(1::nat) \<le> 4 \<and> sorts_by_lineIdx (sort_key lineIdx :: string processResult list \<Rightarrow> _) \<and>
   {ex_provider} \<noteq> {} \<and>
   (\<exists>out results.
      processCoordinatesToVegreferanse (sort_key lineIdx)
        (worker_of ex_config ex_ParseFloat {ex_provider}) ex_lines 4 out \<and>
      out = Some results \<and> map lineIdx results = [0, 1, 2] \<and> map line results = ex_lines)"
proof -
  let ?run = "processCoordinatesToVegreferanse (sort_key lineIdx)
        (worker_of ex_config ex_ParseFloat {ex_provider}) ex_lines 4"
  have a: "(1::nat) \<le> 4" by simp
  have b: "sorts_by_lineIdx (sort_key lineIdx :: string processResult list \<Rightarrow> _)"
    by (rule sort_key_sorts)
  have c: "{ex_provider} \<noteq> {}" by simp
  note inst = batch_order_preserved[OF a b c, of ex_config ex_ParseFloat ex_lines "[]"]
  from inst obtain out where out: "?run out" by blast
  with inst obtain results where r: "out = Some results" "length results = length ex_lines"
    "\<forall>i<length ex_lines. lineIdx (results ! i) = int i \<and> line (results ! i) = ex_lines ! i"
    by blast
  have l3: "length ex_lines = 3" by (simp add: ex_lines_def)
  have "map lineIdx results = map int [0..<3]"
    using r(2,3) l3 by (intro nth_equalityI) simp_all
  then have i: "map lineIdx results = [0, 1, 2]" by (simp add: upt_rec)
  have l: "map line results = ex_lines"
    using r(2,3) by (intro nth_equalityI) simp_all
  have "\<exists>out results. ?run out \<and> out = Some results \<and>
      map lineIdx results = [0, 1, 2] \<and> map line results = ex_lines"
    using out r(1) i l by (intro exI[of _ out] exI[of _ results] conjI)
  then show ?thesis using a b c by (intro conjI)
qed

subsection \<open>A deterministic provider\<close>

lemma deterministic_batch:
  assumes n: "1 \<le> n" and srt: "sorts_by_lineIdx srt"
  shows "processCoordinatesToVegreferanse srt (worker_of c pf {p}) lines n out \<longleftrightarrow>
         out = Some (map (process_task c pf p) (tasks_of lines))"
proof -
  let ?work = "worker_of c pf {p}"
  let ?run = "processCoordinatesToVegreferanse srt ?work lines n"
  have only: "o' = Some (map (process_task c pf p) (tasks_of lines))" if "?run o'" for o'
  proof -
    from batch_results[OF n srt that]
    obtain results where r: "o' = Some results" "list_all2 ?work (tasks_of lines) results"
      by blast
    have "results = map (process_task c pf p) (tasks_of lines)"
    proof (rule nth_equalityI)
      show "length results = length (map (process_task c pf p) (tasks_of lines))"
        using r(2) by (simp add: list_all2_lengthD[symmetric])
    next
      fix i assume "i < length results"
      then show "results ! i = map (process_task c pf p) (tasks_of lines) ! i"
        using r(2) by (auto simp: list_all2_conv_all_nth worker_of_def)
    qed
    then show ?thesis using r(1) by simp
  qed
  obtain s where "(pool_step ?work)\<^sup>*\<^sup>* (pool_init lines n) s" "joined s"
    using pool_can_finish[of ?work lines n] worker_of_total[of "{p}" c pf] by blast
  then obtain o' where o': "?run o'"
    unfolding processCoordinatesToVegreferanse_def by blast
  then have "?run (Some (map (process_task c pf p) (tasks_of lines)))"
    using only[OF o'] by simp
  then show ?thesis using only by blast
qed

text \<open>
  C4. With a deterministic provider (a function of the coordinates), the batch stage
  with one worker and the batch stage with any number \<open>n \<ge> 1\<close> of workers return the
  same thing in every execution: the results of the lines, computed line by line, in
  input order. The output is computed from this sequence alone, so it is the same too.
\<close>

theorem worker_count_irrelevant:
  assumes "1 \<le> n" and "sorts_by_lineIdx srt"
  shows "(processCoordinatesToVegreferanse srt (worker_of modeConfig ParseFloat {p}) lines n out \<longleftrightarrow>
          processCoordinatesToVegreferanse srt (worker_of modeConfig ParseFloat {p}) lines 1 out) \<and>
         (processCoordinatesToVegreferanse srt (worker_of modeConfig ParseFloat {p}) lines 1 out \<longleftrightarrow>
          out = Some (map (process_task modeConfig ParseFloat p) (tasks_of lines))) \<and>
         (processCoordinatesToVegreferanse srt (worker_of modeConfig ParseFloat {p}) lines n out \<longrightarrow>
          Option.bind out (output_of header) =
            output_of header (map (process_task modeConfig ParseFloat p) (tasks_of lines)))"
  using deterministic_batch[OF assms, of modeConfig ParseFloat p lines out]
    deterministic_batch[OF _ assms(2), of 1 modeConfig ParseFloat p lines out]
  by auto

theorem worker_count_irrelevant_witness:
  "(1::nat) \<le> 4 \<and> sorts_by_lineIdx (sort_key lineIdx :: string processResult list \<Rightarrow> _) \<and>
   processCoordinatesToVegreferanse (sort_key lineIdx)
     (worker_of ex_config ex_ParseFloat {ex_provider}) ex_lines 4
     (Some (map (process_task ex_config ex_ParseFloat ex_provider) (tasks_of ex_lines))) \<and>
   processCoordinatesToVegreferanse (sort_key lineIdx)
     (worker_of ex_config ex_ParseFloat {ex_provider}) ex_lines 1
     (Some (map (process_task ex_config ex_ParseFloat ex_provider) (tasks_of ex_lines)))"
proof -
  have a: "(1::nat) \<le> 4" by simp
  have b: "sorts_by_lineIdx (sort_key lineIdx :: string processResult list \<Rightarrow> _)"
    by (rule sort_key_sorts)
  from worker_count_irrelevant[OF a b, of ex_config ex_ParseFloat ex_provider ex_lines
      "Some (map (process_task ex_config ex_ParseFloat ex_provider) (tasks_of ex_lines))"]
  show ?thesis using a b by simp
qed

section \<open>Properties of the lookup client\<close>









subsection \<open>Looking the same coordinates up twice\<close>









section \<open>Properties of the rate limiter\<close>

lemma filter_later:
  fixes m n T :: int
  assumes "n \<le> m"
  shows "filter (\<lambda>t. m - t < T) (filter (\<lambda>t. n - t < T) xs) = filter (\<lambda>t. m - t < T) xs"
proof -
  have "filter (\<lambda>t. m - t < T) (filter (\<lambda>t. n - t < T) xs) =
        filter (\<lambda>t. n - t < T \<and> m - t < T) xs"
    by simp
  also have "\<dots> = filter (\<lambda>t. m - t < T) xs"
    by (rule filter_cong) (use assms in auto)
  finally show ?thesis .
qed

lemma Wait_shape:
  assumes "Wait w tk = Some w'" and "int (length (calls (limiter w))) \<le> limit (limiter w)"
  shows "clock w \<le> clock w' \<and>
         limit (limiter w') = limit (limiter w) \<and> timeFrame (limiter w') = timeFrame (limiter w) \<and>
         calls (limiter w') =
           filter (\<lambda>t. clock w' - t < timeFrame (limiter w)) (calls (limiter w)) @ [clock w'] \<and>
         int (length (calls (limiter w'))) \<le> limit (limiter w)"
proof -
  define r where "r = limiter w"
  define T where "T = timeFrame r"
  define now where "now = clock w + int (fst tk)"
  define valid where "valid = filter (\<lambda>call. now - call < T) (calls r)"
  have now: "clock w \<le> now" by (simp add: now_def)
  have lv: "int (length valid) \<le> limit r"
    using assms(2) length_filter_le[of "\<lambda>call. now - call < T" "calls r"]
    unfolding valid_def r_def by linarith
  have W: "Wait w tk =
     (if int (length valid) \<ge> limit r then
        (case valid of
           [] \<Rightarrow> None
         | oldest # rest \<Rightarrow>
             (if T - (now - oldest) > 0 then
                Some \<lparr>limiter = r\<lparr>calls :=
                        filter (\<lambda>call. now + (T - (now - oldest)) + int (snd tk) - call < T) valid
                        @ [now + (T - (now - oldest)) + int (snd tk)]\<rparr>,
                      clock = now + (T - (now - oldest)) + int (snd tk)\<rparr>
              else Some \<lparr>limiter = r\<lparr>calls := valid @ [now]\<rparr>, clock = now\<rparr>))
      else Some \<lparr>limiter = r\<lparr>calls := valid @ [now]\<rparr>, clock = now\<rparr>)"
    unfolding Wait_def Let_def r_def T_def now_def valid_def ..
  show ?thesis
  proof (cases "int (length valid) \<ge> limit r")
    case False
    then have "w' = \<lparr>limiter = r\<lparr>calls := valid @ [now]\<rparr>, clock = now\<rparr>"
      using assms(1) W by simp
    then show ?thesis using False now by (simp add: valid_def r_def T_def)
  next
    case True
    then obtain oldest rest where v: "valid = oldest # rest"
      using assms(1) W by (cases valid) simp_all
    have "oldest \<in> set valid" using v by simp
    then have old: "now - oldest < T" by (simp add: valid_def)
    define now' where "now' = now + (T - (now - oldest)) + int (snd tk)"
    define valid' where "valid' = filter (\<lambda>call. now' - call < T) valid"
    have w': "w' = \<lparr>limiter = r\<lparr>calls := valid' @ [now']\<rparr>, clock = now'\<rparr>"
      using assms(1) W True v old by (simp add: now'_def valid'_def)
    have ge: "now \<le> now'" using old by (simp add: now'_def)
    have eq: "valid' = filter (\<lambda>call. now' - call < T) (calls r)"
      unfolding valid'_def valid_def by (rule filter_later[OF ge])
    have gone: "\<not> now' - oldest < T" by (simp add: now'_def)
    have "valid' = filter (\<lambda>call. now' - call < T) rest"
      unfolding valid'_def v using gone by simp
    then have "length valid' \<le> length rest" by simp
    moreover have "int (length rest) < limit r" using lv v by simp
    ultimately have "int (length (valid' @ [now'])) \<le> limit r" by simp
    then show ?thesis using w' ge now eq by (simp add: r_def T_def)
  qed
qed

lemma length_filter_mono:
  "(\<And>x. x \<in> set xs \<Longrightarrow> P x \<Longrightarrow> Q x) \<Longrightarrow> length (filter P xs) \<le> length (filter Q xs)"
  by (induction xs) auto

lemma limiter_inv_step:
  assumes W: "Wait w tk = Some w'" and inv: "limiter_inv w A"
  shows "limiter_inv w' (A @ [clock w'])"
proof -
  define T where "T = timeFrame (limiter w)"
  define L where "L = limit (limiter w)"
  define C where "C = calls (limiter w)"
  define m where "m = clock w'"
  have len: "int (length C) \<le> L"
    and same: "\<And>n. clock w \<le> n \<Longrightarrow> filter (\<lambda>t. n - t < T) A = filter (\<lambda>t. n - t < T) C"
    and bound: "\<And>a. int (length (filter (\<lambda>t. a \<le> t \<and> t < a + T) A)) \<le> L"
    using inv by (simp_all add: limiter_inv_def T_def L_def C_def)
  have "int (length (calls (limiter w))) \<le> limit (limiter w)"
    using len by (simp add: C_def L_def)
  note sh = Wait_shape[OF W this]
  have m: "clock w \<le> m" using sh unfolding m_def by blast
  have L': "limit (limiter w') = L" using sh unfolding L_def by blast
  have T': "timeFrame (limiter w') = T" using sh unfolding T_def by blast
  have C': "calls (limiter w') = filter (\<lambda>t. m - t < T) C @ [m]"
    using sh unfolding m_def T_def C_def by blast
  have len': "int (length (calls (limiter w'))) \<le> L" using sh unfolding L_def by blast
  have same': "filter (\<lambda>t. n - t < T) (A @ [m]) = filter (\<lambda>t. n - t < T) (calls (limiter w'))"
    if "m \<le> n" for n
  proof -
    have "filter (\<lambda>t. n - t < T) (filter (\<lambda>t. m - t < T) C) = filter (\<lambda>t. n - t < T) C"
      by (rule filter_later[OF that])
    moreover have "filter (\<lambda>t. n - t < T) A = filter (\<lambda>t. n - t < T) C"
      using same[of n] m that by simp
    ultimately show ?thesis unfolding C' by (simp del: filter_filter)
  qed
  have bound': "int (length (filter (\<lambda>t. a \<le> t \<and> t < a + T) (A @ [m]))) \<le> L" for a
  proof (cases "a \<le> m \<and> m < a + T")
    case False
    then have "filter (\<lambda>t. a \<le> t \<and> t < a + T) (A @ [m]) = filter (\<lambda>t. a \<le> t \<and> t < a + T) A"
      by auto
    then show ?thesis using bound[of a] by simp
  next
    case True
    have "length (filter (\<lambda>t. a \<le> t \<and> t < a + T) A) \<le> length (filter (\<lambda>t. m - t < T) A)"
      by (rule length_filter_mono) (use True in auto)
    also have "filter (\<lambda>t. m - t < T) A = filter (\<lambda>t. m - t < T) C"
      using same[of m] m by simp
    finally have "length (filter (\<lambda>t. a \<le> t \<and> t < a + T) A) + 1 \<le> length (calls (limiter w'))"
      unfolding C' by simp
    moreover have "length (filter (\<lambda>t. a \<le> t \<and> t < a + T) (A @ [m])) =
        length (filter (\<lambda>t. a \<le> t \<and> t < a + T) A) + 1"
      using True by simp
    ultimately show ?thesis using len' by linarith
  qed
  show ?thesis
    unfolding limiter_inv_def L' T' using len' same' bound' by (simp add: m_def)
qed

lemma Wait_params:
  assumes "Wait w tk = Some w'" and "limiter_inv w A"
  shows "limit (limiter w') = limit (limiter w) \<and> timeFrame (limiter w') = timeFrame (limiter w)"
  using Wait_shape[OF assms(1)] assms(2) by (simp add: limiter_inv_def)

lemma run_waits_bound:
  assumes "limiter_inv w A"
  shows "int (length (filter (\<lambda>t. a \<le> t \<and> t < a + timeFrame (limiter w)) (run_waits w A ticks)))
           \<le> limit (limiter w)"
  using assms
proof (induction ticks arbitrary: w A)
  case Nil
  then show ?case by (simp add: limiter_inv_def)
next
  case (Cons tk ticks)
  show ?case
  proof (cases "Wait w tk")
    case None
    then show ?thesis using Cons.prems by (simp add: limiter_inv_def)
  next
    case (Some w')
    from Cons.IH[OF limiter_inv_step[OF Some Cons.prems]] Wait_params[OF Some Cons.prems]
    show ?thesis using Some by simp
  qed
qed

lemma Wait_admits:
  assumes "1 \<le> limit (limiter w)"
  shows "\<exists>w'. Wait w tk = Some w'"
proof -
  let ?valid = "filter (\<lambda>call. clock w + int (fst tk) - call < timeFrame (limiter w))
                  (calls (limiter w))"
  show ?thesis
  proof (cases ?valid)
    case Nil
    then show ?thesis using assms by (simp add: Wait_def Let_def)
  next
    case (Cons oldest rest)
    then show ?thesis by (simp add: Wait_def Let_def)
  qed
qed

lemma run_waits_length:
  assumes "1 \<le> limit (limiter w)" and "limiter_inv w A"
  shows "length (run_waits w A ticks) = length A + length ticks"
  using assms
proof (induction ticks arbitrary: w A)
  case Nil
  then show ?case by simp
next
  case (Cons tk ticks)
  obtain w' where w': "Wait w tk = Some w'" using Wait_admits[OF Cons.prems(1)] by blast
  have "1 \<le> limit (limiter w')" using Wait_params[OF w' Cons.prems(2)] Cons.prems(1) by simp
  from Cons.IH[OF this limiter_inv_step[OF w' Cons.prems(2)]] show ?case using w' by simp
qed

lemma limiter_inv_new:
  assumes "NewRateLimiter lmt frame = Some r0"
  shows "limiter_inv \<lparr>limiter = r0, clock = c0\<rparr> [] \<and> limit r0 = lmt \<and> timeFrame r0 = frame"
  using assms by (auto simp: NewRateLimiter_def limiter_inv_def split: if_splits)

text \<open>
  C5. In every execution of a new limiter (any sequence of calls of \<^verbatim>\<open>Wait\<close>, which
  the mutex runs one at a time, with any delays between and inside them), every window
  of length \<open>timeFrame\<close> contains at most \<open>limit\<close> of the times at which calls were
  admitted. With a limit of at least 1 every call is admitted.
\<close>

theorem rate_bound:
  assumes "NewRateLimiter lmt frame = Some r0"
  shows "int (length (filter (\<lambda>t. a \<le> t \<and> t < a + frame)
                        (admitted \<lparr>limiter = r0, clock = c0\<rparr> ticks))) \<le> lmt \<and>
         (1 \<le> lmt \<longrightarrow> length (admitted \<lparr>limiter = r0, clock = c0\<rparr> ticks) = length ticks)"
proof -
  note new = limiter_inv_new[OF assms, of c0]
  have "int (length (filter (\<lambda>t. a \<le> t \<and> t < a + frame)
                        (admitted \<lparr>limiter = r0, clock = c0\<rparr> ticks))) \<le> lmt"
    using run_waits_bound[of "\<lparr>limiter = r0, clock = c0\<rparr>" "[]" a ticks] new
    by (simp add: admitted_def)
  moreover have "length (admitted \<lparr>limiter = r0, clock = c0\<rparr> ticks) = length ticks" if "1 \<le> lmt"
    using run_waits_length[of "\<lparr>limiter = r0, clock = c0\<rparr>" "[]" ticks] new that
    by (simp add: admitted_def)
  ultimately show ?thesis by simp
qed

theorem rate_bound_witness:
  "NewRateLimiter 2 10 = Some \<lparr>calls = [], limit = 2, timeFrame = 10\<rparr> \<and>
   admitted \<lparr>limiter = \<lparr>calls = [], limit = 2, timeFrame = 10\<rparr>, clock = 0\<rparr>
     [(0, 0), (0, 0), (0, 0), (3, 1)] = [0, 0, 10, 13] \<and>
   int (length (filter (\<lambda>t. 0 \<le> t \<and> t < 0 + 10)
     (admitted \<lparr>limiter = \<lparr>calls = [], limit = 2, timeFrame = 10\<rparr>, clock = 0\<rparr>
        [(0, 0), (0, 0), (0, 0), (3, 1)]))) \<le> 2 \<and>
   length (admitted \<lparr>limiter = \<lparr>calls = [], limit = 2, timeFrame = 10\<rparr>, clock = 0\<rparr>
        [(0, 0), (0, 0), (0, 0), (3, 1)]) = length [(0::nat, 0::nat), (0, 0), (0, 0), (3, 1)]"
proof -
  have a: "NewRateLimiter 2 10 = Some \<lparr>calls = [], limit = 2, timeFrame = 10\<rparr>"
    by (simp add: NewRateLimiter_def)
  have b: "admitted \<lparr>limiter = \<lparr>calls = [], limit = 2, timeFrame = 10\<rparr>, clock = 0\<rparr>
     [(0, 0), (0, 0), (0, 0), (3, 1)] = [0, 0, 10, 13]"
    by (simp add: admitted_def Wait_def Let_def)
  from rate_bound[OF a, of 0 0 "[(0, 0), (0, 0), (0, 0), (3, 1)]"] a b
  show ?thesis by (simp del: filter.simps)
qed

end
